theory Spec2Isabelle
  imports Complex_Main "HOL-Library.AList"
begin

section \<open>Data model\<close>

text \<open>
  The classes of \<^verbatim>\<open>Test/Experiments/Paper/experiment_code.py\<close> as records. Python
  strings are modelled as \<^typ>\<open>string\<close>, Python integers that count things as
  \<^typ>\<open>nat\<close>, and Python floats as \<^typ>\<open>real\<close>: arithmetic on scores is exact in
  the model, rounding of the machine representation is not part of it.
\<close>

record sir_components_t =
  severity :: real
  outDependencies :: nat
  inDependencies :: nat
  chainLengthFactor :: real

record TechnicalDebt =
  id_td :: string
  file_td :: string
  line :: int
  content :: string
  description :: string
  debt_type :: "string option"
  created_commit :: "string option"
  created_date :: "string option"
  sir_score :: real
  sir_components :: sir_components_t

text \<open>\<^verbatim>\<open>TechnicalDebt.__init__\<close>: \<^verbatim>\<open>description or content\<close> takes the content when the
  description is \<^verbatim>\<open>None\<close> or empty.\<close>

definition TechnicalDebt_init :: "string \<Rightarrow> string \<Rightarrow> int \<Rightarrow> string \<Rightarrow> string option \<Rightarrow> TechnicalDebt" where
  "TechnicalDebt_init i f l c d =
     \<lparr> id_td = i, file_td = f, line = l, content = c,
       description = (case d of None \<Rightarrow> c | Some s \<Rightarrow> if s = [] then c else s),
       debt_type = None, created_commit = None, created_date = None,
       sir_score = 0,
       sir_components = \<lparr> severity = 0, outDependencies = 0, inDependencies = 0,
                          chainLengthFactor = 0 \<rparr> \<rparr>"

record SatdRelationship =
  source_id :: string
  target_id :: string
  types :: "string list"
  strength :: real
  description_rel :: string
  chain_ids :: "string list"
  in_chain :: bool

text \<open>\<^verbatim>\<open>SatdRelationship.__init__\<close>: a single type (\<open>Inl\<close>) is wrapped into a list.\<close>

definition SatdRelationship_init ::
  "string \<Rightarrow> string \<Rightarrow> string + string list \<Rightarrow> real \<Rightarrow> string \<Rightarrow> SatdRelationship" where
  "SatdRelationship_init s t tys w d =
     \<lparr> source_id = s, target_id = t,
       types = (case tys of Inr l \<Rightarrow> l | Inl ty \<Rightarrow> [ty]),
       strength = w, description_rel = d, chain_ids = [], in_chain = False \<rparr>"

record Chain =
  id_ch :: string
  nodes :: "string list"
  length_ch :: nat

definition Chain_init :: "string \<Rightarrow> string list \<Rightarrow> Chain" where
  "Chain_init i ns = \<lparr> id_ch = i, nodes = ns, length_ch = length ns \<rparr>"

section \<open>Strings\<close>

text \<open>
  \<^verbatim>\<open>str.lower()\<close> on ASCII text: the letters \<open>A\<close> to \<open>Z\<close> are mapped to \<open>a\<close> to \<open>z\<close>, every
  other character is left alone.
\<close>

definition lower_char :: "char \<Rightarrow> char" where
  "lower_char c =
     (case map_of (zip ''ABCDEFGHIJKLMNOPQRSTUVWXYZ'' ''abcdefghijklmnopqrstuvwxyz'') c of
        Some l \<Rightarrow> l
      | None \<Rightarrow> c)"

definition lower :: "string \<Rightarrow> string" where
  "lower s = map lower_char s"

fun startswith :: "string \<Rightarrow> string \<Rightarrow> bool" where
  "startswith s [] = True"
| "startswith [] (w # ws) = False"
| "startswith (c # cs) (w # ws) = (c = w \<and> startswith cs ws)"

text \<open>\<^verbatim>\<open>word in content\<close> for strings: \<open>word\<close> occurs as a contiguous substring.\<close>

fun str_in :: "string \<Rightarrow> string \<Rightarrow> bool" where
  "str_in w [] = (w = [])"
| "str_in w (c # cs) = (startswith (c # cs) w \<or> str_in w cs)"

section \<open>Severity (\<^verbatim>\<open>SirCalculator._calculate_intrinsic_severity\<close>)\<close>

definition type_severity :: "(string \<times> real) list" where
  "type_severity =
     [(''Design'', 8), (''Architecture'', 9), (''Defect'', 7), (''Test'', 6),
      (''Implementation'', 5), (''Requirement'', 7), (''Documentation'', 4), (''Other'', 5)]"

text \<open>\<^verbatim>\<open>type_severity.get(debt.debt_type, 5.0)\<close>; the key \<^verbatim>\<open>None\<close> is not in the table.\<close>

definition type_severity_get :: "string option \<Rightarrow> real" where
  "type_severity_get ty =
     (case ty of None \<Rightarrow> 5
      | Some t \<Rightarrow> (case map_of type_severity t of None \<Rightarrow> 5 | Some v \<Rightarrow> v))"

definition any_word_in :: "string list \<Rightarrow> string \<Rightarrow> bool" where
  "any_word_in ws c = list_ex (\<lambda>w. str_in w c) ws"

definition calculate_intrinsic_severity :: "TechnicalDebt \<Rightarrow> real" where
  "calculate_intrinsic_severity debt =
     (let severity0 = type_severity_get (debt_type debt);
          c = lower (content debt);
          severity1 =
            (if any_word_in [''critical'', ''blocker'', ''urgent'', ''security''] c
               then severity0 + 2
             else if any_word_in [''major'', ''important''] c then severity0 + 1
             else if any_word_in [''minor'', ''cosmetic'', ''trivial''] c then severity0 - 2
             else severity0)
      in max 1 (min 10 severity1))"

subsection \<open>The severity rule in the words of the specification\<close>

datatype debt_kind =
  Architecture | Design | Defect | Requirement | Test | Implementation | Other | Documentation

definition kind_of :: "string option \<Rightarrow> debt_kind" where
  "kind_of ty =
     (if ty = Some ''Architecture'' then Architecture
      else if ty = Some ''Design'' then Design
      else if ty = Some ''Defect'' then Defect
      else if ty = Some ''Requirement'' then Requirement
      else if ty = Some ''Test'' then Test
      else if ty = Some ''Implementation'' then Implementation
      else if ty = Some ''Documentation'' then Documentation
      else Other)"

fun spec_base :: "debt_kind \<Rightarrow> real" where
  "spec_base Architecture = 9"
| "spec_base Design = 8"
| "spec_base Defect = 7"
| "spec_base Requirement = 7"
| "spec_base Test = 6"
| "spec_base Implementation = 5"
| "spec_base Other = 5"
| "spec_base Documentation = 4"

text \<open>Case-insensitive containment: some spelling of the content in lower case has the
  keyword as a contiguous part.\<close>

definition contains_ci :: "string \<Rightarrow> string \<Rightarrow> bool" where
  "contains_ci c w = (\<exists>pre post. lower c = pre @ w @ post)"

definition spec_adjust :: "string \<Rightarrow> real" where
  "spec_adjust c =
     (if \<exists>w \<in> {''critical'', ''blocker'', ''urgent'', ''security''}. contains_ci c w then 2
      else if \<exists>w \<in> {''major'', ''important''}. contains_ci c w then 1
      else if \<exists>w \<in> {''minor'', ''cosmetic'', ''trivial''}. contains_ci c w then - 2
      else 0)"

definition spec_clamp :: "real \<Rightarrow> real" where
  "spec_clamp x = (if x < 1 then 1 else if 10 < x then 10 else x)"

definition spec_severity :: "string option \<Rightarrow> string \<Rightarrow> real" where
  "spec_severity ty c = spec_clamp (spec_base (kind_of ty) + spec_adjust c)"

section \<open>Tiering (\<^verbatim>\<open>docs/tmp/exp22.py\<close>)\<close>

text \<open>
  \<^verbatim>\<open>round(x, 4)\<close>: the nearest multiple of \<open>1/10000\<close>, a tie going to the even
  multiple.
\<close>

definition round4 :: "real \<Rightarrow> real" where
  "round4 x =
     (let y = x * 10000; f = \<lfloor>y\<rfloor>; d = y - of_int f
      in of_int (if d < 1 / 2 then f else if 1 / 2 < d then f + 1
                 else if even f then f else f + 1) / 10000)"

text \<open>\<^verbatim>\<open>calculate_sir_score\<close> with its \<open>weights\<close> parameter \<open>(alpha, beta, gamma)\<close>.\<close>

definition calculate_sir_score :: "nat \<Rightarrow> nat \<Rightarrow> nat \<Rightarrow> real \<times> real \<times> real \<Rightarrow> real" where
  "calculate_sir_score chain_length num_dependencies reachability weights =
     (case weights of (alpha, beta, gamma) \<Rightarrow>
        let fanout_normalized = min (real num_dependencies / 10) 1;
            chain_len_normalized = min (real chain_length / 7) 1;
            reachability_normalized = min (real reachability / 15) 1
        in round4 (alpha * fanout_normalized + beta * chain_len_normalized
                   + gamma * reachability_normalized))"

definition default_exp_weights :: "real \<times> real \<times> real" where
  "default_exp_weights = (4 / 10, 3 / 10, 3 / 10)"

datatype tier = Top | Mid | Bottom

text \<open>The bucket chosen in \<^verbatim>\<open>generate_complete_dataset\<close>; the labels \<^verbatim>\<open>'Top-5'\<close>,
  \<^verbatim>\<open>'Mid-5'\<close> and \<^verbatim>\<open>'Bottom-5'\<close> are the three tiers.\<close>

definition sir_bucket :: "real \<Rightarrow> tier" where
  "sir_bucket sir_score_v =
     (if sir_score_v \<ge> 7 / 10 then Top
      else if sir_score_v \<ge> 4 / 10 then Mid
      else Bottom)"

definition chain_bucket :: "nat \<Rightarrow> nat \<Rightarrow> nat \<Rightarrow> tier" where
  "chain_bucket chain_length num_dependencies reachability =
     sir_bucket (calculate_sir_score chain_length num_dependencies reachability default_exp_weights)"

section \<open>Directed graphs (\<^verbatim>\<open>networkx.DiGraph\<close>)\<close>

text \<open>
  The part of the graph library the analysis uses. A graph keeps its nodes in insertion
  order and, for every ordered pair of nodes, at most one edge with its attributes; the
  edges are kept in the order of their first insertion, so the successors of a node are
  iterated in the order in which its outgoing edges were first added.
\<close>

datatype nx_error = NetworkXError | NodeNotFound | NetworkXNoPath

record edge_data =
  types_e :: "string list"
  strength_e :: real
  description_e :: string

record DiGraph =
  g_nodes :: "string list"
  g_edges :: "((string \<times> string) \<times> edge_data) list"

definition DiGraph_init :: DiGraph where
  "DiGraph_init = \<lparr> g_nodes = [], g_edges = [] \<rparr>"

definition add_node :: "DiGraph \<Rightarrow> string \<Rightarrow> DiGraph" where
  "add_node G n = (if n \<in> set (g_nodes G) then G else G \<lparr> g_nodes := g_nodes G @ [n] \<rparr>)"

text \<open>\<^verbatim>\<open>add_edge(u, v, **attr)\<close> adds missing endpoints and stores the attributes; on an
  edge that is already there the given attributes replace the stored ones and the edge
  keeps its place.\<close>

definition add_edge :: "DiGraph \<Rightarrow> string \<Rightarrow> string \<Rightarrow> edge_data \<Rightarrow> DiGraph" where
  "add_edge G u v d =
     (let G1 = add_node (add_node G u) v
      in G1 \<lparr> g_edges := AList.update (u, v) d (g_edges G1) \<rparr>)"

definition edge_set :: "DiGraph \<Rightarrow> (string \<times> string) set" where
  "edge_set G = set (map fst (g_edges G))"

definition successors :: "DiGraph \<Rightarrow> string \<Rightarrow> string list" where
  "successors G u = map snd (filter (\<lambda>e. fst e = u) (map fst (g_edges G)))"

definition predecessors :: "DiGraph \<Rightarrow> string \<Rightarrow> string list" where
  "predecessors G v = map fst (filter (\<lambda>e. snd e = v) (map fst (g_edges G)))"

text \<open>
  \<^verbatim>\<open>all_simple_paths(G, source, target, cutoff)\<close>: a depth-first search that extends the
  current path \<open>visited\<close> by each successor of its last node that is not on the path;
  reaching the target yields the path and does not search beyond it, and no path gets
  more than \<open>cutoff\<close> edges. The second argument of the search counts the edges that
  may still be added.
\<close>

fun simple_paths_dfs :: "DiGraph \<Rightarrow> string \<Rightarrow> string list \<Rightarrow> nat \<Rightarrow> string list list" where
  "simple_paths_dfs G target visited 0 = []"
| "simple_paths_dfs G target visited (Suc k) =
     concat (map (\<lambda>child.
                    if child \<in> set visited then []
                    else if child = target then [visited @ [child]]
                    else simple_paths_dfs G target (visited @ [child]) k)
                 (successors G (last visited)))"

definition all_simple_paths ::
  "DiGraph \<Rightarrow> string \<Rightarrow> string \<Rightarrow> nat \<Rightarrow> nx_error + string list list" where
  "all_simple_paths G source target cutoff =
     (if source \<notin> set (g_nodes G) then Inl NodeNotFound
      else if target \<notin> set (g_nodes G) then Inl NodeNotFound
      else if source = target then Inr []
      else Inr (simple_paths_dfs G target [source] cutoff))"

text \<open>
  \<^verbatim>\<open>descendants(G, source)\<close> and \<^verbatim>\<open>ancestors(G, source)\<close>: a breadth-first search
  from the source along the edges (against them for the ancestors); the result is every
  node found but the source itself. A source that is not a node of the graph is an error.
\<close>

definition neighbours :: "DiGraph \<Rightarrow> bool \<Rightarrow> string \<Rightarrow> string list" where
  "neighbours G forward n = (if forward then successors G n else predecessors G n)"

function bfs :: "DiGraph \<Rightarrow> bool \<Rightarrow> string list \<Rightarrow> string list \<Rightarrow> string list" where
  "bfs G forward visited [] = visited"
| "bfs G forward visited (n # queue) =
     (let new = filter (\<lambda>v. v \<notin> set visited) (remdups (neighbours G forward n))
      in bfs G forward (visited @ new) (queue @ new))"
  by pat_completeness auto
termination
proof (relation "measures [\<lambda>(G, forward, visited, queue).
                             card ((fst ` edge_set G \<union> snd ` edge_set G) - set visited),
                           \<lambda>(G, forward, visited, queue). length queue]", goal_cases)
  case 1
  show ?case by simp
next
  case (2 G forward visited n queue new)
  let ?U = "fst ` edge_set G \<union> snd ` edge_set G"
  have fin: "finite ?U" by (simp add: edge_set_def)
  have sub: "set new \<subseteq> ?U - set visited"
    using 2 by (auto simp: neighbours_def successors_def predecessors_def edge_set_def
        split: if_splits)
  show ?case
  proof (cases "new = []")
    case True
    then show ?thesis by simp
  next
    case False
    then obtain v where v: "v \<in> set new" by (cases new) auto
    then have "v \<in> ?U - set visited" using sub by auto
    moreover have "?U - set (visited @ new) \<subseteq> ?U - set visited" by auto
    moreover have "v \<notin> ?U - set (visited @ new)" using v by auto
    ultimately have "?U - set (visited @ new) \<subset> ?U - set visited" by blast
    then have "card (?U - set (visited @ new)) < card (?U - set visited)"
      using fin by (intro psubset_card_mono) auto
    then show ?thesis by simp
  qed
qed

definition descendants :: "DiGraph \<Rightarrow> string \<Rightarrow> nx_error + string set" where
  "descendants G source =
     (if source \<notin> set (g_nodes G) then Inl NetworkXError
      else Inr (set (bfs G True [source] [source]) - {source}))"

definition ancestors :: "DiGraph \<Rightarrow> string \<Rightarrow> nx_error + string set" where
  "ancestors G source =
     (if source \<notin> set (g_nodes G) then Inl NetworkXError
      else Inr (set (bfs G False [source] [source]) - {source}))"

section \<open>Printing numbers\<close>

definition digit_char :: "nat \<Rightarrow> char" where
  "digit_char n = ''0123456789'' ! (n mod 10)"

text \<open>The decimal numeral of a number, as an f-string prints it.\<close>

function str_nat :: "nat \<Rightarrow> string" where
  "str_nat n = (if n < 10 then [digit_char n] else str_nat (n div 10) @ [digit_char n])"
  by pat_completeness auto
termination
  by (relation "measure id") auto

definition str_int :: "int \<Rightarrow> string" where
  "str_int i = (if i < 0 then CHR ''-'' # str_nat (nat (- i)) else str_nat (nat i))"

section \<open>Relationship analysis (\<^verbatim>\<open>RelationshipAnalyzer\<close>)\<close>

datatype py_error = NameError | AttributeError | KeyError

definition relationship_strengths :: "(string \<times> real) list" where
  "relationship_strengths =
     [(''call'', 8 / 10), (''data'', 7 / 10), (''control'', 6 / 10), (''module'', 9 / 10)]"

text \<open>
  The relationship an extractor creates for one raw edge of type \<open>ty\<close>:
  \<^verbatim>\<open>SatdRelationship(source_id, target_id, types=[ty],
  strength=self.relationship_strengths[ty], description)\<close>. A type that is not a key of
  the table is a \<^verbatim>\<open>KeyError\<close>.
\<close>

definition raw_relationship ::
  "string \<Rightarrow> string \<Rightarrow> string \<Rightarrow> string \<Rightarrow> py_error + SatdRelationship" where
  "raw_relationship s t ty d =
     (case map_of relationship_strengths ty of
        None \<Rightarrow> Inl KeyError
      | Some w \<Rightarrow> Inr (SatdRelationship_init s t (Inr [ty]) w d))"

subsection \<open>The extractors\<close>

text \<open>
  The extractors simulate their findings with \<^verbatim>\<open>random.random()\<close>. The model reads the
  random numbers from a tape \<open>rnd\<close>: the \<open>n\<close>-th call of \<^verbatim>\<open>random.random()\<close> returns
  \<open>rnd n\<close>. The state of an extractor's loops is the list \<open>relationships\<close> together with
  the number of random numbers drawn so far. The parameter \<^verbatim>\<open>project_path\<close> is not used
  by any extractor and is left out.
\<close>

type_synonym tape = "nat \<Rightarrow> real"
type_synonym ex_state = "SatdRelationship list \<times> nat"
type_synonym pair_step = "TechnicalDebt \<Rightarrow> TechnicalDebt \<Rightarrow> ex_state \<Rightarrow> py_error + ex_state"

text \<open>\<^verbatim>\<open>debt_by_file\<close>: the instances grouped by file, the files in the order of their
  first instance.\<close>

definition debt_by_file_add ::
  "(string \<times> TechnicalDebt list) list \<Rightarrow> TechnicalDebt \<Rightarrow> (string \<times> TechnicalDebt list) list" where
  "debt_by_file_add m debt =
     AList.update (file_td debt)
       ((case map_of m (file_td debt) of None \<Rightarrow> [] | Some l \<Rightarrow> l) @ [debt]) m"

definition debt_by_file_of :: "TechnicalDebt list \<Rightarrow> (string \<times> TechnicalDebt list) list" where
  "debt_by_file_of debt_items = foldl debt_by_file_add [] debt_items"

text \<open>
  The four nested loops that the extractors share: over the source files, the target
  files, the source instances and the target instances. A pair of different files is
  looked at only when the next random number is at most \<open>p\<close>; \<open>step\<close> is the body of the
  innermost loop. An exception leaves all loops.
\<close>

fun target_debt_loop ::
  "pair_step \<Rightarrow> TechnicalDebt \<Rightarrow> TechnicalDebt list \<Rightarrow> ex_state \<Rightarrow> py_error + ex_state" where
  "target_debt_loop step source_debt [] st = Inr st"
| "target_debt_loop step source_debt (target_debt # target_debts) st =
     (case step source_debt target_debt st of
        Inl err \<Rightarrow> Inl err
      | Inr st' \<Rightarrow> target_debt_loop step source_debt target_debts st')"

fun source_debt_loop ::
  "pair_step \<Rightarrow> TechnicalDebt list \<Rightarrow> TechnicalDebt list \<Rightarrow> ex_state \<Rightarrow> py_error + ex_state" where
  "source_debt_loop step [] target_debts st = Inr st"
| "source_debt_loop step (source_debt # source_debts) target_debts st =
     (case target_debt_loop step source_debt target_debts st of
        Inl err \<Rightarrow> Inl err
      | Inr st' \<Rightarrow> source_debt_loop step source_debts target_debts st')"

fun target_file_loop ::
  "tape \<Rightarrow> real \<Rightarrow> pair_step \<Rightarrow> string \<times> TechnicalDebt list
     \<Rightarrow> (string \<times> TechnicalDebt list) list \<Rightarrow> ex_state \<Rightarrow> py_error + ex_state" where
  "target_file_loop rnd p step src [] st = Inr st"
| "target_file_loop rnd p step src (tgt # tgts) (relationships, n) =
     (if fst src = fst tgt then target_file_loop rnd p step src tgts (relationships, n)
      else if rnd n > p then target_file_loop rnd p step src tgts (relationships, n + 1)
      else (case source_debt_loop step (snd src) (snd tgt) (relationships, n + 1) of
              Inl err \<Rightarrow> Inl err
            | Inr st' \<Rightarrow> target_file_loop rnd p step src tgts st'))"

fun source_file_loop ::
  "tape \<Rightarrow> real \<Rightarrow> pair_step \<Rightarrow> (string \<times> TechnicalDebt list) list
     \<Rightarrow> (string \<times> TechnicalDebt list) list \<Rightarrow> ex_state \<Rightarrow> py_error + ex_state" where
  "source_file_loop rnd p step [] items st = Inr st"
| "source_file_loop rnd p step (src # srcs) items st =
     (case target_file_loop rnd p step src items st of
        Inl err \<Rightarrow> Inl err
      | Inr st' \<Rightarrow> source_file_loop rnd p step srcs items st')"

definition dependency_text :: "string \<Rightarrow> TechnicalDebt \<Rightarrow> string \<Rightarrow> TechnicalDebt \<Rightarrow> string" where
  "dependency_text pre source_debt mid target_debt =
     pre @ file_td source_debt @ '':'' @ str_int (line source_debt) @ mid
       @ file_td target_debt @ '':'' @ str_int (line target_debt)"

text \<open>
  The innermost body of \<^verbatim>\<open>analyze_call_dependencies\<close>. A pair with equal ids is skipped.
  With a random number below 0.25 the body builds a module relationship whose description
  names \<^verbatim>\<open>source_module\<close>, a variable that this method does not have: a
  \<^verbatim>\<open>NameError\<close>. Otherwise a random number below 0.2 adds a call relationship.
\<close>

definition call_pair :: "tape \<Rightarrow> pair_step" where
  "call_pair rnd source_debt target_debt st =
     (case st of (relationships, n) \<Rightarrow>
        if id_td source_debt = id_td target_debt then Inr (relationships, n)
        else if rnd n < 25 / 100 then
          (case map_of relationship_strengths ''module'' of
             None \<Rightarrow> Inl KeyError
           | Some w \<Rightarrow> Inl NameError)
        else if id_td source_debt = id_td target_debt then Inr (relationships, n + 1)
        else if rnd (n + 1) < 2 / 10 then
          (case raw_relationship (id_td source_debt) (id_td target_debt) ''call''
                  (dependency_text ''Call dependency: '' source_debt '' calls method in ''
                     target_debt) of
             Inl err \<Rightarrow> Inl err
           | Inr rel \<Rightarrow> Inr (relationships @ [rel], n + 2))
        else Inr (relationships, n + 2))"

definition analyze_call_dependencies :: "tape \<Rightarrow> TechnicalDebt list \<Rightarrow> nat \<Rightarrow> py_error + ex_state" where
  "analyze_call_dependencies rnd debt_items n =
     (let debt_by_file = debt_by_file_of debt_items
      in source_file_loop rnd (3 / 10) (call_pair rnd) debt_by_file debt_by_file ([], n))"

text \<open>
  \<^verbatim>\<open>analyze_data_dependencies\<close> and \<^verbatim>\<open>analyze_control_flow_dependencies\<close>, as the file
  defines them after the call of \<^verbatim>\<open>main()\<close>: their innermost body skips a pair with equal
  ids and adds a relationship of type \<open>ty\<close> when the next random number is below \<open>q\<close>.
  (\<^verbatim>\<open>analyze_module_dependencies\<close> breaks off before its innermost body and has no model.)
\<close>

definition typed_pair :: "tape \<Rightarrow> real \<Rightarrow> string \<Rightarrow> string \<Rightarrow> string \<Rightarrow> pair_step" where
  "typed_pair rnd q ty pre mid source_debt target_debt st =
     (case st of (relationships, n) \<Rightarrow>
        if id_td source_debt = id_td target_debt then Inr (relationships, n)
        else if rnd n < q then
          (case raw_relationship (id_td source_debt) (id_td target_debt) ty
                  (dependency_text pre source_debt mid target_debt) of
             Inl err \<Rightarrow> Inl err
           | Inr rel \<Rightarrow> Inr (relationships @ [rel], n + 1))
        else Inr (relationships, n + 1))"

definition analyze_data_dependencies :: "tape \<Rightarrow> TechnicalDebt list \<Rightarrow> nat \<Rightarrow> py_error + ex_state" where
  "analyze_data_dependencies rnd debt_items n =
     (let debt_by_file = debt_by_file_of debt_items
      in source_file_loop rnd (25 / 100)
           (typed_pair rnd (15 / 100) ''data'' ''Data dependency: '' '' uses data from '')
           debt_by_file debt_by_file ([], n))"

definition analyze_control_flow_dependencies ::
  "tape \<Rightarrow> TechnicalDebt list \<Rightarrow> nat \<Rightarrow> py_error + ex_state" where
  "analyze_control_flow_dependencies rnd debt_items n =
     (let debt_by_file = debt_by_file_of debt_items
      in source_file_loop rnd (2 / 10)
           (typed_pair rnd (1 / 10) ''control'' ''Control flow: '' '' affects execution path to '')
           debt_by_file debt_by_file ([], n))"

subsection \<open>\<^verbatim>\<open>find_all_relationships\<close>\<close>

definition edge_data_of :: "SatdRelationship \<Rightarrow> edge_data" where
  "edge_data_of rel =
     \<lparr> types_e = types rel, strength_e = strength rel, description_e = description_rel rel \<rparr>"

definition add_relationship :: "DiGraph \<Rightarrow> SatdRelationship \<Rightarrow> DiGraph" where
  "add_relationship G rel =
     (let G1 = (if source_id rel \<notin> set (g_nodes G) then add_node G (source_id rel) else G);
          G2 = (if target_id rel \<notin> set (g_nodes G1) then add_node G1 (target_id rel) else G1)
      in add_edge G2 (source_id rel) (target_id rel) (edge_data_of rel))"

text \<open>The loop that adds the relationships to \<^verbatim>\<open>self.graph\<close>.\<close>

definition register_relationships :: "DiGraph \<Rightarrow> SatdRelationship list \<Rightarrow> DiGraph" where
  "register_relationships graph all_relationships = foldl add_relationship graph all_relationships"

text \<open>
  A method call \<^verbatim>\<open>self.name(debt_items, project_path)\<close> on the analyzer. The class body
  defines \<^verbatim>\<open>analyze_call_dependencies\<close> and no other extractor: the three other
  functions stand after the call of \<^verbatim>\<open>main()\<close>, outside the class, so looking them up on
  \<open>self\<close> is an \<^verbatim>\<open>AttributeError\<close>.
\<close>

definition self_extractor :: "string \<Rightarrow> tape \<Rightarrow> TechnicalDebt list \<Rightarrow> nat \<Rightarrow> py_error + ex_state" where
  "self_extractor name rnd debt_items n =
     (if name = ''analyze_call_dependencies'' then analyze_call_dependencies rnd debt_items n
      else Inl AttributeError)"

text \<open>
  \<^verbatim>\<open>find_all_relationships\<close>: \<open>graph\<close> is \<^verbatim>\<open>self.graph\<close> before the call and \<open>n\<close> the
  number of random numbers drawn before it; the result is the returned list, or the
  exception that ends the call, together with \<^verbatim>\<open>self.graph\<close> after it.
\<close>

definition find_all_relationships ::
  "DiGraph \<Rightarrow> tape \<Rightarrow> TechnicalDebt list \<Rightarrow> nat
     \<Rightarrow> (py_error + SatdRelationship list) \<times> DiGraph" where
  "find_all_relationships graph rnd debt_items n =
     (case self_extractor ''analyze_call_dependencies'' rnd debt_items n of
        Inl err \<Rightarrow> (Inl err, graph)
      | Inr (call_rel, n1) \<Rightarrow>
     (case self_extractor ''analyze_data_dependencies'' rnd debt_items n1 of
        Inl err \<Rightarrow> (Inl err, graph)
      | Inr (data_rel, n2) \<Rightarrow>
     (case self_extractor ''analyze_control_flow_dependencies'' rnd debt_items n2 of
        Inl err \<Rightarrow> (Inl err, graph)
      | Inr (control_rel, n3) \<Rightarrow>
     (case self_extractor ''analyze_module_dependencies'' rnd debt_items n3 of
        Inl err \<Rightarrow> (Inl err, graph)
      | Inr (module_rel, n4) \<Rightarrow>
          (let all_relationships = call_rel @ data_rel @ control_rel @ module_rel
           in (Inr all_relationships, register_relationships graph all_relationships))))))"

section \<open>Chain analysis (\<^verbatim>\<open>ChainAnalyzer\<close>)\<close>

text \<open>\<^verbatim>\<open>sep.join(xs)\<close>\<close>

fun join :: "string \<Rightarrow> string list \<Rightarrow> string" where
  "join sep [] = []"
| "join sep [x] = x"
| "join sep (x # y # ys) = x @ sep @ join sep (y # ys)"

definition build_graph :: "SatdRelationship list \<Rightarrow> TechnicalDebt list \<Rightarrow> DiGraph" where
  "build_graph relationships debt_items =
     foldl (\<lambda>g rel. add_edge g (source_id rel) (target_id rel) (edge_data_of rel))
       (foldl (\<lambda>g debt. add_node g (id_td debt)) DiGraph_init debt_items)
       relationships"

text \<open>The three nested loops that collect the candidate chains; the state is the list
  \<open>chains\<close> and the counter \<open>chain_id\<close>.\<close>

fun paths_loop :: "string list list \<Rightarrow> Chain list \<times> nat \<Rightarrow> Chain list \<times> nat" where
  "paths_loop [] st = st"
| "paths_loop (path # paths) (chains_v, chain_id) =
     (if length path \<ge> 2
        then paths_loop paths (chains_v @ [Chain_init (''chain-'' @ str_nat chain_id) path],
                               chain_id + 1)
      else paths_loop paths (chains_v, chain_id))"

fun target_loop :: "DiGraph \<Rightarrow> string \<Rightarrow> string list \<Rightarrow> Chain list \<times> nat \<Rightarrow> Chain list \<times> nat" where
  "target_loop graph source [] st = st"
| "target_loop graph source (target # targets) st =
     (if source = target then target_loop graph source targets st
      else (case all_simple_paths graph source target 20 of
              Inr paths \<Rightarrow> target_loop graph source targets (paths_loop paths st)
            | Inl err \<Rightarrow> target_loop graph source targets st))"

fun source_loop :: "DiGraph \<Rightarrow> string list \<Rightarrow> Chain list \<times> nat \<Rightarrow> Chain list \<times> nat" where
  "source_loop graph [] st = st"
| "source_loop graph (source # sources) st =
     source_loop graph sources (target_loop graph source (g_nodes graph) st)"

definition candidate_chains :: "DiGraph \<Rightarrow> Chain list" where
  "candidate_chains graph = fst (source_loop graph (g_nodes graph) ([], 1))"

fun dedup_loop :: "Chain list \<Rightarrow> Chain list \<times> string set \<Rightarrow> Chain list \<times> string set" where
  "dedup_loop [] st = st"
| "dedup_loop (chain # chains_v) (unique_chains, path_strings) =
     (let path_str = join '','' (nodes chain)
      in if path_str \<notin> path_strings
           then dedup_loop chains_v (unique_chains @ [chain], insert path_str path_strings)
         else dedup_loop chains_v (unique_chains, path_strings))"

definition unique_chains_of :: "Chain list \<Rightarrow> Chain list" where
  "unique_chains_of chains_v = fst (dedup_loop chains_v ([], {}))"

definition dict_append :: "('k \<rightharpoonup> 'v list) \<Rightarrow> 'k \<Rightarrow> 'v \<Rightarrow> ('k \<rightharpoonup> 'v list)" where
  "dict_append d k v = d(k \<mapsto> (case d k of None \<Rightarrow> [] | Some l \<Rightarrow> l) @ [v])"

definition dict_get :: "('k \<rightharpoonup> 'v list) \<Rightarrow> 'k \<Rightarrow> 'v list" where
  "dict_get d k = (case d k of None \<Rightarrow> [] | Some l \<Rightarrow> l)"

definition chain_edges :: "Chain \<Rightarrow> (string \<times> string) list" where
  "chain_edges chain = zip (nodes chain) (tl (nodes chain))"

definition edge_to_chains :: "Chain list \<Rightarrow> (string \<times> string \<rightharpoonup> string list)" where
  "edge_to_chains chains_v =
     foldl (\<lambda>d chain. foldl (\<lambda>d edge. dict_append d edge (id_ch chain)) d (chain_edges chain))
       Map.empty chains_v"

definition enhance_relationships_with_chain_info ::
  "SatdRelationship list \<Rightarrow> Chain list \<Rightarrow> SatdRelationship list" where
  "enhance_relationships_with_chain_info relationships chains_v =
     (let e2c = edge_to_chains chains_v
      in map (\<lambda>rel.
                let cids = dict_get e2c (source_id rel, target_id rel)
                in (SatdRelationship_init (source_id rel) (target_id rel) (Inr (types rel))
                      (strength rel) (description_rel rel))
                   \<lparr> chain_ids := cids, in_chain := (length cids > 0) \<rparr>)
             relationships)"

text \<open>\<^verbatim>\<open>unique_chains.sort(key=lambda ch: ch.length, reverse=True)\<close>: a stable sort, the
  longest chains first.\<close>

definition sort_by_length_desc :: "Chain list \<Rightarrow> Chain list" where
  "sort_by_length_desc chains_v = sort_key (\<lambda>ch. - int (length_ch ch)) chains_v"

definition find_chains ::
  "SatdRelationship list \<Rightarrow> TechnicalDebt list \<Rightarrow> SatdRelationship list \<times> Chain list" where
  "find_chains relationships debt_items =
     (let graph = build_graph relationships debt_items;
          chains_v = candidate_chains graph;
          unique_chains = unique_chains_of chains_v;
          enhanced_relationships = enhance_relationships_with_chain_info relationships unique_chains
      in (enhanced_relationships, sort_by_length_desc unique_chains))"

subsection \<open>Chain metrics\<close>

text \<open>\<^verbatim>\<open>max(xs) if xs else d\<close>\<close>

definition max_or :: "nat \<Rightarrow> nat list \<Rightarrow> nat" where
  "max_or d xs = (case xs of [] \<Rightarrow> d | x # ys \<Rightarrow> fold max ys x)"






section \<open>SIR scores (\<^verbatim>\<open>SirCalculator\<close>)\<close>

record weights_t =
  w_severity :: real
  w_outgoing :: real
  w_incoming :: real
  w_chain_length :: real

definition default_weights :: weights_t where
  "default_weights =
     \<lparr> w_severity = 4 / 10, w_outgoing = 3 / 10, w_incoming = 1 / 10, w_chain_length = 4 / 10 \<rparr>"

text \<open>\<^verbatim>\<open>SirCalculator.__init__(weights=None)\<close>\<close>

definition SirCalculator_init :: "weights_t option \<Rightarrow> weights_t" where
  "SirCalculator_init weights = (case weights of None \<Rightarrow> default_weights | Some w \<Rightarrow> w)"

definition calculate_outgoing_influence :: "string \<Rightarrow> DiGraph \<Rightarrow> nat" where
  "calculate_outgoing_influence debt_id graph =
     (case descendants graph debt_id of Inr ds \<Rightarrow> card ds | Inl err \<Rightarrow> 0)"

definition calculate_incoming_dependency :: "string \<Rightarrow> DiGraph \<Rightarrow> nat" where
  "calculate_incoming_dependency debt_id graph =
     (case ancestors graph debt_id of Inr as \<Rightarrow> card as | Inl err \<Rightarrow> 0)"

definition calculate_chain_length_factor :: "string \<Rightarrow> Chain list \<Rightarrow> nat \<Rightarrow> real" where
  "calculate_chain_length_factor debt_id chains_v max_chain_length =
     (if chains_v = [] \<or> max_chain_length \<le> 1 then 0
      else real (max_or 0 (map length_ch chains_v)) / real max_chain_length)"

definition debt_in_chains_of :: "Chain list \<Rightarrow> (string \<rightharpoonup> Chain list)" where
  "debt_in_chains_of chains_v =
     foldl (\<lambda>d chain. foldl (\<lambda>d node_id. dict_append d node_id chain) d (nodes chain))
       Map.empty chains_v"

text \<open>The body of the scoring loop: the scored instance is the given one with
  \<open>sir_score\<close> and \<open>sir_components\<close> assigned.\<close>

definition score_debt ::
  "weights_t \<Rightarrow> (string \<rightharpoonup> Chain list) \<Rightarrow> nat \<Rightarrow> DiGraph \<Rightarrow> TechnicalDebt \<Rightarrow> TechnicalDebt" where
  "score_debt weights debt_in_chains max_chain_length graph debt =
     (let severity_v = calculate_intrinsic_severity debt;
          outgoing = calculate_outgoing_influence (id_td debt) graph;
          incoming = calculate_incoming_dependency (id_td debt) graph;
          chain_length_factor =
            calculate_chain_length_factor (id_td debt) (dict_get debt_in_chains (id_td debt))
              max_chain_length;
          sir_score_v =
            w_severity weights * severity_v + w_outgoing weights * real outgoing
            - w_incoming weights * real incoming + w_chain_length weights * chain_length_factor
      in debt \<lparr> sir_score := sir_score_v,
                sir_components :=
                  \<lparr> severity = severity_v, outDependencies = outgoing,
                    inDependencies = incoming, chainLengthFactor = chain_length_factor \<rparr> \<rparr>)"

text \<open>
  The instances are objects that the caller and the scorer share, so scoring is modelled
  over a store: \<open>objs\<close> holds the instance at every reference and \<open>lists\<close> the list object
  at every reference. \<^verbatim>\<open>calculate_sir_scores\<close> takes the reference of the list
  \<^verbatim>\<open>debt_items\<close> and returns a reference together with the store it leaves behind.
\<close>

type_synonym ref = nat

record store =
  objs :: "ref \<Rightarrow> TechnicalDebt"
  lists :: "ref \<Rightarrow> ref list"

definition update_obj :: "(TechnicalDebt \<Rightarrow> TechnicalDebt) \<Rightarrow> store \<Rightarrow> ref \<Rightarrow> store" where
  "update_obj f h r = h \<lparr> objs := (objs h) (r := f (objs h r)) \<rparr>"

definition calculate_sir_scores ::
  "weights_t \<Rightarrow> store \<Rightarrow> ref \<Rightarrow> SatdRelationship list \<Rightarrow> Chain list \<Rightarrow> DiGraph \<Rightarrow> ref \<times> store" where
  "calculate_sir_scores weights h debt_items relationships chains_v graph =
     (let max_chain_length = max_or 1 (map length_ch chains_v);
          debt_in_chains = debt_in_chains_of chains_v
      in (debt_items,
          foldl (update_obj (score_debt weights debt_in_chains max_chain_length graph))
            h (lists h debt_items)))"

section \<open>Notions used to state the properties\<close>

text \<open>The consecutive pairs \<open>(p[i], p[i+1])\<close> of a node sequence.\<close>

definition consecutive :: "string list \<Rightarrow> (string \<times> string) set" where
  "consecutive p = set (zip p (tl p))"

text \<open>The ordered pairs that the relationships connect: the edges of the graph that
  \<^verbatim>\<open>find_chains\<close> builds.\<close>

definition rel_edges :: "SatdRelationship list \<Rightarrow> (string \<times> string) set" where
  "rel_edges relationships = set (map (\<lambda>rel. (source_id rel, target_id rel)) relationships)"

text \<open>A simple path of the edge relation \<open>E\<close> with at least two nodes and at most \<open>k\<close>
  edges: no node is repeated and every consecutive pair is an edge.\<close>

definition simple_path_upto :: "(string \<times> string) set \<Rightarrow> nat \<Rightarrow> string list \<Rightarrow> bool" where
  "simple_path_upto E k p =
     (2 \<le> length p \<and> length p \<le> Suc k \<and> distinct p \<and> consecutive p \<subseteq> E)"

text \<open>The node sequences that the three collecting loops of \<^verbatim>\<open>find_chains\<close> append, in
  the order in which they are appended.\<close>

definition paths_between :: "DiGraph \<Rightarrow> string \<Rightarrow> string \<Rightarrow> string list list" where
  "paths_between graph source target =
     (if source = target then []
      else (case all_simple_paths graph source target 20 of
              Inr paths \<Rightarrow> filter (\<lambda>path. 2 \<le> length path) paths
            | Inl err \<Rightarrow> []))"

definition candidate_paths :: "DiGraph \<Rightarrow> string list list" where
  "candidate_paths graph =
     concat (map (\<lambda>source. concat (map (paths_between graph source) (g_nodes graph)))
                 (g_nodes graph))"

text \<open>Every chain carries the number of its nodes as its length, as \<^verbatim>\<open>Chain.__init__\<close>
  sets it.\<close>

definition lengths_ok :: "Chain list \<Rightarrow> bool" where
  "lengths_ok cs = list_all (\<lambda>c. length_ch c = length (nodes c)) cs"

text \<open>The key under which the deduplication remembers a chain.\<close>

definition path_str :: "Chain \<Rightarrow> string" where
  "path_str chain = join '','' (nodes chain)"

text \<open>The graph entry that a relationship writes: its ordered pair and its attributes.\<close>

definition keyed :: "SatdRelationship \<Rightarrow> (string \<times> string) \<times> edge_data" where
  "keyed rel = ((source_id rel, target_id rel), edge_data_of rel)"

text \<open>The edge relation followed by a search: the edges themselves forwards, their
  converse backwards.\<close>

definition dir_rel :: "DiGraph \<Rightarrow> bool \<Rightarrow> (string \<times> string) set" where
  "dir_rel G forward = (if forward then edge_set G else (edge_set G)\<inverse>)"

text \<open>A loop body keeps a property \<open>P\<close> of all relationships collected so far, for pairs
  of instances taken from \<open>A\<close>.\<close>

definition step_keeps :: "(SatdRelationship \<Rightarrow> bool) \<Rightarrow> TechnicalDebt set \<Rightarrow> pair_step \<Rightarrow> bool" where
  "step_keeps P A step =
     (\<forall>s \<in> A. \<forall>t \<in> A. \<forall>rels n st'.
        list_all P rels \<longrightarrow> step s t (rels, n) = Inr st' \<longrightarrow> list_all P (fst st'))"


text \<open>A relationship has the single type \<open>ty\<close> and the strength \<open>w\<close>.\<close>

definition single_typed :: "string \<Rightarrow> real \<Rightarrow> SatdRelationship \<Rightarrow> bool" where
  "single_typed ty w rel = (types rel = [ty] \<and> strength rel = w)"

section \<open>Example data\<close>

text \<open>An instance as the detector creates it and a call relationship as the call
  extractor creates it, for the concrete runs below.\<close>

definition example_debt :: "string \<Rightarrow> string \<Rightarrow> TechnicalDebt" where
  "example_debt i f = TechnicalDebt_init i f 1 ''TODO: fix'' None"

definition call_edge :: "string \<Rightarrow> string \<Rightarrow> SatdRelationship" where
  "call_edge s t = SatdRelationship_init s t (Inr [''call'']) (8 / 10) ''Call dependency''"

definition module_edge :: "string \<Rightarrow> string \<Rightarrow> SatdRelationship" where
  "module_edge s t = SatdRelationship_init s t (Inr [''module'']) (9 / 10) ''Module dependency''"

text \<open>A line of seven instances, each calling the next.\<close>

definition line7 :: "SatdRelationship list" where
  "line7 = [call_edge ''n0'' ''n1'', call_edge ''n1'' ''n2'', call_edge ''n2'' ''n3'',
            call_edge ''n3'' ''n4'', call_edge ''n4'' ''n5'', call_edge ''n5'' ''n6'']"

text \<open>Two instances \<open>b\<close> and \<open>a\<close>, registered in this order, that both call \<open>c\<close>.\<close>

definition fork_debts :: "TechnicalDebt list" where
  "fork_debts = [example_debt ''b'' ''src/b.py'', example_debt ''a'' ''src/a.py'',
                 example_debt ''c'' ''lib/c.py'']"

definition fork_rels :: "SatdRelationship list" where
  "fork_rels = [call_edge ''b'' ''c'', call_edge ''a'' ''c'']"

text \<open>A store that holds the three instances at the references 0, 1 and 2 and, at the
  reference 3, the list of them.\<close>

definition fork_store :: store where
  "fork_store =
     \<lparr> objs = (\<lambda>r. if r = 0 then example_debt ''b'' ''src/b.py''
                   else if r = 1 then example_debt ''a'' ''src/a.py''
                   else example_debt ''c'' ''lib/c.py''),
       lists = (\<lambda>r. if r = 3 then [0, 1, 2] else []) \<rparr>"

text \<open>The graph that the registration loop builds from the two calls.\<close>

definition fork_graph_of_analyzer :: DiGraph where
  "fork_graph_of_analyzer = register_relationships DiGraph_init fork_rels"

text \<open>
  Three instances with the ids the detector forms from path and line: the files
  \<^verbatim>\<open>a/b.py\<close> and \<^verbatim>\<open>a_b.py\<close> give the same id for their first line.
\<close>

definition twin_debts :: "TechnicalDebt list" where
  "twin_debts = [TechnicalDebt_init ''a_b.py_1'' ''a/b.py'' 1 ''TODO: fix'' None,
                 TechnicalDebt_init ''a_b.py_1'' ''a_b.py'' 1 ''TODO: fix'' None,
                 TechnicalDebt_init ''c.py_7'' ''c.py'' 7 ''TODO: fix'' None]"

text \<open>A tape of random numbers that starts with the given ones and goes on with 0.9.\<close>

definition tape_of :: "real list \<Rightarrow> tape" where
  "tape_of xs n = (if n < length xs then xs ! n else 9 / 10)"

definition twin_tape :: tape where
  "twin_tape = tape_of [9 / 10, 1 / 10, 5 / 10, 1 / 10, 9 / 10, 1 / 10, 5 / 10, 1 / 10]"


text \<open>The call relationship that the call extractor builds from the first or the second
  instance to the third.\<close>

definition twin_call :: "string \<Rightarrow> SatdRelationship" where
  "twin_call f =
     SatdRelationship_init ''a_b.py_1'' ''c.py_7'' (Inr [''call'']) (8 / 10)
       (''Call dependency: '' @ f @ '':1 calls method in c.py:7'')"

text \<open>A tape that starts with three numbers below every threshold, and the data and
  control relationships that the extractors build from the first instance to the third.\<close>

definition low_tape :: tape where
  "low_tape = tape_of [5 / 100, 5 / 100, 5 / 100]"

definition twin_data :: SatdRelationship where
  "twin_data = SatdRelationship_init ''a_b.py_1'' ''c.py_7'' (Inr [''data'']) (7 / 10)
                 ''Data dependency: a/b.py:1 uses data from c.py:7''"

definition twin_control :: SatdRelationship where
  "twin_control = SatdRelationship_init ''a_b.py_1'' ''c.py_7'' (Inr [''control'']) (6 / 10)
                    ''Control flow: a/b.py:1 affects execution path to c.py:7''"



section \<open>Severity\<close>


lemma startswith_iff: "startswith s w \<longleftrightarrow> (\<exists>post. s = w @ post)"
  by (induction s w rule: startswith.induct) auto

lemma str_in_iff: "str_in w s \<longleftrightarrow> (\<exists>pre post. s = pre @ w @ post)"
proof (induction s)
  case Nil
  then show ?case by auto
next
  case (Cons c cs)
  show ?case
  proof
    assume "str_in w (c # cs)"
    then consider "startswith (c # cs) w" | "str_in w cs" by auto
    then show "\<exists>pre post. c # cs = pre @ w @ post"
    proof cases
      case 1
      then obtain post where "c # cs = w @ post" by (auto simp: startswith_iff)
      then have "c # cs = [] @ w @ post" by simp
      then show ?thesis by blast
    next
      case 2
      then obtain pre post where "cs = pre @ w @ post" using Cons.IH by auto
      then have "c # cs = (c # pre) @ w @ post" by simp
      then show ?thesis by blast
    qed
  next
    assume "\<exists>pre post. c # cs = pre @ w @ post"
    then obtain pre post where e: "c # cs = pre @ w @ post" by blast
    show "str_in w (c # cs)"
    proof (cases pre)
      case Nil
      then have "startswith (c # cs) w" using e by (auto simp: startswith_iff)
      then show ?thesis by simp
    next
      case (Cons p ps)
      then have "cs = ps @ w @ post" using e by simp
      then have "str_in w cs" using Cons.IH by blast
      then show ?thesis by simp
    qed
  qed
qed

lemma any_word_in_iff: "any_word_in ws (lower c) \<longleftrightarrow> (\<exists>w \<in> set ws. contains_ci c w)"
  by (simp add: any_word_in_def list_ex_iff contains_ci_def str_in_iff)

lemma type_severity_get_spec: "type_severity_get ty = spec_base (kind_of ty)"
proof (cases ty)
  case None
  then show ?thesis by (simp add: type_severity_get_def kind_of_def)
next
  case (Some t)
  then show ?thesis by (simp add: type_severity_get_def kind_of_def type_severity_def)
qed

lemma clamp_spec: "max 1 (min 10 x) = spec_clamp x"
  by (simp add: spec_clamp_def max_def min_def)

text \<open>
  Claim C6. The severity of an instance is the base value of its debt type
  (Architecture 9, Design 8, Defect 7, Requirement 7, Test 6, Implementation 5, Other 5,
  Documentation 4, any other or missing type counting as Other), plus 2 when the content,
  read without regard to case, contains one of critical, blocker, urgent, security, else
  plus 1 when it contains major or important, else minus 2 when it contains minor,
  cosmetic or trivial, clamped to the range from 1 to 10. An Architecture instance whose
  content contains "critical" has severity 10.
\<close>

theorem severity_refines_spec:
  "calculate_intrinsic_severity debt = spec_severity (debt_type debt) (content debt)
   \<and> 1 \<le> calculate_intrinsic_severity debt \<and> calculate_intrinsic_severity debt \<le> 10
   \<and> (debt_type debt = Some ''Architecture'' \<and> contains_ci (content debt) ''critical''
        \<longrightarrow> calculate_intrinsic_severity debt = 10)"
proof -
  have eq: "calculate_intrinsic_severity debt = spec_severity (debt_type debt) (content debt)"
    unfolding calculate_intrinsic_severity_def spec_severity_def spec_adjust_def Let_def
      clamp_spec type_severity_get_spec any_word_in_iff
    by simp
  have rng: "1 \<le> spec_severity ty c \<and> spec_severity ty c \<le> 10" for ty c
    by (simp add: spec_severity_def spec_clamp_def)
  have sc: "spec_severity (Some ''Architecture'') c = 10" if "contains_ci c ''critical''" for c
    using that by (simp add: spec_severity_def spec_adjust_def kind_of_def spec_clamp_def)
  show ?thesis using eq rng sc by auto
qed

theorem severity_refines_spec_witness:
  "calculate_intrinsic_severity
     ((TechnicalDebt_init ''a_1'' ''a.py'' 1 ''FIXME: Critical coupling'' None)
        \<lparr> debt_type := Some ''Architecture'' \<rparr>) = 10
   \<and> contains_ci ''FIXME: Critical coupling'' ''critical''"
proof -
  let ?d = "(TechnicalDebt_init ''a_1'' ''a.py'' 1 ''FIXME: Critical coupling'' None)
        \<lparr> debt_type := Some ''Architecture'' \<rparr>"
  have c: "contains_ci ''FIXME: Critical coupling'' ''critical''"
    unfolding contains_ci_def str_in_iff [symmetric]
    by (simp add: lower_def lower_char_def)
  have t: "debt_type ?d = Some ''Architecture''" "content ?d = ''FIXME: Critical coupling''"
    by (simp_all add: TechnicalDebt_init_def)
  show ?thesis using severity_refines_spec [of ?d] c t by simp
qed

section \<open>Tiers\<close>


lemma round4_bounds:
  assumes "0 \<le> x" and "x \<le> 1"
  shows "0 \<le> round4 x \<and> round4 x \<le> 1"
proof -
  define y where "y = x * 10000"
  define f where "f = \<lfloor>y\<rfloor>"
  have y: "0 \<le> y" "y \<le> 10000" using assms by (simp_all add: y_def)
  have f0: "0 \<le> f" using y by (simp add: f_def)
  have f1: "f \<le> 10000" using y unfolding f_def by (simp add: floor_le_iff)
  have f2: "f + 1 \<le> 10000" if "0 < y - of_int f"
  proof -
    have "of_int f < y" using that by simp
    then have "real_of_int f < 10000" using y by linarith
    then show ?thesis by linarith
  qed
  have "0 \<le> real_of_int f" "real_of_int f \<le> 10000" using f0 f1 by simp_all
  moreover have "real_of_int (f + 1) \<le> 10000" if "0 < y - of_int f"
    using f2 [OF that] by linarith
  ultimately show ?thesis
    unfolding round4_def Let_def y_def [symmetric] f_def [symmetric]
    by (auto simp: field_simps)
qed

lemma calculate_sir_score_bounds:
  "0 \<le> calculate_sir_score cl nd r default_exp_weights
   \<and> calculate_sir_score cl nd r default_exp_weights \<le> 1"
proof -
  define a where "a = min (real nd / 10) 1"
  define b where "b = min (real cl / 7) 1"
  define c where "c = min (real r / 15) 1"
  have "0 \<le> a" "a \<le> 1" "0 \<le> b" "b \<le> 1" "0 \<le> c" "c \<le> 1"
    by (simp_all add: a_def b_def c_def)
  then have "0 \<le> 4 / 10 * a + 3 / 10 * b + 3 / 10 * c" "4 / 10 * a + 3 / 10 * b + 3 / 10 * c \<le> 1"
    by simp_all
  then show ?thesis
    unfolding calculate_sir_score_def default_exp_weights_def Let_def
      a_def [symmetric] b_def [symmetric] c_def [symmetric]
    using round4_bounds by simp
qed

text \<open>
  Claim C9. The tier of a scored item is fixed by two thresholds on its score, which lies
  between 0 and 1: at least 0.7 is Top, from 0.4 up to but excluding 0.7 is Mid, below
  0.4 is Bottom; the scores 0.75, 0.45 and 0.1 fall into Top, Mid and Bottom.
\<close>

theorem tier_thresholds:
  "(7 / 10 \<le> s \<longrightarrow> sir_bucket s = Top)
   \<and> (4 / 10 \<le> s \<and> s < 7 / 10 \<longrightarrow> sir_bucket s = Mid)
   \<and> (s < 4 / 10 \<longrightarrow> sir_bucket s = Bottom)
   \<and> sir_bucket (75 / 100) = Top \<and> sir_bucket (45 / 100) = Mid \<and> sir_bucket (1 / 10) = Bottom
   \<and> 0 \<le> calculate_sir_score cl nd r default_exp_weights
   \<and> calculate_sir_score cl nd r default_exp_weights \<le> 1
   \<and> chain_bucket cl nd r = sir_bucket (calculate_sir_score cl nd r default_exp_weights)"
  using calculate_sir_score_bounds [of cl nd r]
  by (simp add: sir_bucket_def chain_bucket_def)

theorem tier_thresholds_witness:
  "(7 / 10 \<le> (1::real) \<and> chain_bucket 7 10 15 = Top)
   \<and> ((4 / 10 \<le> (4686 / 10000 :: real) \<and> (4686 / 10000 :: real) < 7 / 10) \<and> chain_bucket 3 4 9 = Mid)
   \<and> ((2057 / 10000 :: real) < 4 / 10 \<and> chain_bucket 2 2 2 = Bottom)"
proof -
  have a: "calculate_sir_score 7 10 15 default_exp_weights = 1"
    by (simp add: calculate_sir_score_def default_exp_weights_def round4_def Let_def)
  have b: "calculate_sir_score 3 4 9 default_exp_weights = 4686 / 10000"
    by (simp add: calculate_sir_score_def default_exp_weights_def round4_def Let_def)
  have c: "calculate_sir_score 2 2 2 default_exp_weights = 2057 / 10000"
    by (simp add: calculate_sir_score_def default_exp_weights_def round4_def Let_def)
  have t1: "chain_bucket 7 10 15 = Top"
    using tier_thresholds [of 1 7 10 15] unfolding a by simp
  have t2: "chain_bucket 3 4 9 = Mid"
    using tier_thresholds [of "4686 / 10000" 3 4 9] unfolding b by simp
  have t3: "chain_bucket 2 2 2 = Bottom"
    using tier_thresholds [of "2057 / 10000" 2 2 2] unfolding c by simp
  show ?thesis using t1 t2 t3 by simp
qed

section \<open>Simple paths\<close>

lemma set_successors: "set (successors G u) = {v. (u, v) \<in> edge_set G}"
  by (force simp: successors_def edge_set_def)

lemma set_predecessors: "set (predecessors G v) = {u. (u, v) \<in> edge_set G}"
  by (force simp: predecessors_def edge_set_def)

lemma dfs_sound:
  assumes "p \<in> set (simple_paths_dfs G t vis k)"
  shows "\<exists>q. p = vis @ q \<and> q \<noteq> [] \<and> length q \<le> k \<and> last q = t \<and> distinct q
             \<and> set q \<inter> set vis = {} \<and> set (zip (last vis # q) q) \<subseteq> edge_set G"
  using assms
proof (induction k arbitrary: vis p)
  case 0
  then show ?case by simp
next
  case (Suc k)
  from Suc.prems obtain c where c: "c \<in> set (successors G (last vis))" "c \<notin> set vis"
    and p: "(c = t \<and> p = vis @ [c]) \<or> (c \<noteq> t \<and> p \<in> set (simple_paths_dfs G t (vis @ [c]) k))"
    by (auto split: if_splits)
  have e: "(last vis, c) \<in> edge_set G" using c(1) by (simp add: set_successors)
  from p show ?case
  proof
    assume "c = t \<and> p = vis @ [c]"
    then have "p = vis @ [c] \<and> [c] \<noteq> [] \<and> length [c] \<le> Suc k \<and> last [c] = t \<and> distinct [c]
             \<and> set [c] \<inter> set vis = {} \<and> set (zip (last vis # [c]) [c]) \<subseteq> edge_set G"
      using c e by simp
    then show ?thesis by blast
  next
    assume a: "c \<noteq> t \<and> p \<in> set (simple_paths_dfs G t (vis @ [c]) k)"
    from Suc.IH [of p "vis @ [c]"] a obtain q where q: "p = (vis @ [c]) @ q" "q \<noteq> []"
      "length q \<le> k" "last q = t" "distinct q" "set q \<inter> set (vis @ [c]) = {}"
      "set (zip (last (vis @ [c]) # q) q) \<subseteq> edge_set G" by blast
    have "p = vis @ (c # q) \<and> c # q \<noteq> [] \<and> length (c # q) \<le> Suc k \<and> last (c # q) = t
          \<and> distinct (c # q) \<and> set (c # q) \<inter> set vis = {}
          \<and> set (zip (last vis # c # q) (c # q)) \<subseteq> edge_set G"
      using q c e by auto
    then show ?thesis by blast
  qed
qed

lemma dfs_complete:
  assumes "q \<noteq> []" "length q \<le> k" "last q = t" "distinct q" "set q \<inter> set vis = {}"
    "set (zip (last vis # q) q) \<subseteq> edge_set G"
  shows "vis @ q \<in> set (simple_paths_dfs G t vis k)"
  using assms
proof (induction k arbitrary: vis q)
  case 0
  then show ?case by simp
next
  case (Suc k)
  from Suc.prems(1) obtain c q' where q: "q = c # q'" by (cases q) auto
  have c: "c \<in> set (successors G (last vis))" "c \<notin> set vis"
    using Suc.prems q by (auto simp: set_successors)
  show ?case
  proof (cases "c = t")
    case True
    have "q' = []"
    proof (rule ccontr)
      assume "q' \<noteq> []"
      then have "last q' = t" "last q' \<in> set q'" using Suc.prems(3) q by auto
      then show False using True Suc.prems(4) q by auto
    qed
    then have "vis @ q = vis @ [c]" using q by simp
    then show ?thesis using c True by auto
  next
    case False
    then have ne: "q' \<noteq> []" using Suc.prems(3) q by auto
    have "(vis @ [c]) @ q' \<in> set (simple_paths_dfs G t (vis @ [c]) k)"
    proof (rule Suc.IH [OF ne])
      show "length q' \<le> k" using Suc.prems(2) q by simp
      show "last q' = t" using Suc.prems(3) q ne by simp
      show "distinct q'" using Suc.prems(4) q by simp
      show "set q' \<inter> set (vis @ [c]) = {}" using Suc.prems(4,5) q by auto
      show "set (zip (last (vis @ [c]) # q') q') \<subseteq> edge_set G" using Suc.prems(6) q by auto
    qed
    then have "vis @ q \<in> set (simple_paths_dfs G t (vis @ [c]) k)" using q by simp
    then show ?thesis using c False by auto
  qed
qed

lemma set_simple_paths_dfs:
  assumes "s \<noteq> t"
  shows "set (simple_paths_dfs G t [s] k) =
         {p. simple_path_upto (edge_set G) k p \<and> hd p = s \<and> last p = t}"
proof (intro equalityI subsetI)
  fix p assume "p \<in> set (simple_paths_dfs G t [s] k)"
  from dfs_sound [OF this] obtain q where q: "p = [s] @ q" "q \<noteq> []" "length q \<le> k"
    "last q = t" "distinct q" "set q \<inter> set [s] = {}" "set (zip (last [s] # q) q) \<subseteq> edge_set G"
    by blast
  moreover have "1 \<le> length q" using q(2) by (cases q) auto
  ultimately have "simple_path_upto (edge_set G) k p \<and> hd p = s \<and> last p = t"
    by (auto simp: simple_path_upto_def consecutive_def)
  then show "p \<in> {p. simple_path_upto (edge_set G) k p \<and> hd p = s \<and> last p = t}" by simp
next
  fix p assume "p \<in> {p. simple_path_upto (edge_set G) k p \<and> hd p = s \<and> last p = t}"
  then have p: "2 \<le> length p" "length p \<le> Suc k" "distinct p" "consecutive p \<subseteq> edge_set G"
    "hd p = s" "last p = t" by (auto simp: simple_path_upto_def)
  then obtain q where q: "p = s # q" by (cases p) auto
  with p(1) have ne: "q \<noteq> []" by auto
  have "[s] @ q \<in> set (simple_paths_dfs G t [s] k)"
  proof (rule dfs_complete [OF ne])
    show "length q \<le> k" using p(2) q by simp
    show "last q = t" using p(6) q ne by simp
    show "distinct q" using p(3) q by simp
    show "set q \<inter> set [s] = {}" using p(3) q by auto
    show "set (zip (last [s] # q) q) \<subseteq> edge_set G" using p(4) q by (simp add: consecutive_def)
  qed
  then show "p \<in> set (simple_paths_dfs G t [s] k)" using q by simp
qed

declare simple_paths_dfs.simps [simp del]

subsection \<open>Graph construction\<close>

lemma add_node_simps:
  "set (g_nodes (add_node G n)) = insert n (set (g_nodes G))"
  "g_edges (add_node G n) = g_edges G"
  "edge_set (add_node G n) = edge_set G"
  by (auto simp: add_node_def edge_set_def)

lemma add_edge_nodes: "set (g_nodes (add_edge G u v d)) = insert u (insert v (set (g_nodes G)))"
  by (auto simp: add_edge_def Let_def add_node_simps)

lemma add_edge_edges: "edge_set (add_edge G u v d) = insert (u, v) (edge_set G)"
  by (auto simp: add_edge_def Let_def edge_set_def add_node_simps update_keys)

lemma add_edge_distinct:
  "distinct (map fst (g_edges G)) \<Longrightarrow> distinct (map fst (g_edges (add_edge G u v d)))"
  by (simp add: add_edge_def Let_def add_node_simps distinct_update)

lemma foldl_add_node_nodes:
  "set (g_nodes (foldl (\<lambda>g debt. add_node g (id_td debt)) G ds)) = set (g_nodes G) \<union> id_td ` set ds"
  by (induction ds arbitrary: G) (auto simp: add_node_simps)

lemma foldl_add_node_edges:
  "edge_set (foldl (\<lambda>g debt. add_node g (id_td debt)) G ds) = edge_set G"
  by (induction ds arbitrary: G) (auto simp: add_node_simps)

lemma foldl_add_edge_edges:
  "edge_set (foldl (\<lambda>g rel. add_edge g (source_id rel) (target_id rel) (edge_data_of rel)) G rs)
   = edge_set G \<union> rel_edges rs"
  by (induction rs arbitrary: G) (auto simp: add_edge_edges rel_edges_def)

lemma foldl_add_edge_nodes:
  "set (g_nodes (foldl (\<lambda>g rel. add_edge g (source_id rel) (target_id rel) (edge_data_of rel)) G rs))
   = set (g_nodes G) \<union> fst ` rel_edges rs \<union> snd ` rel_edges rs"
  by (induction rs arbitrary: G) (auto simp: add_edge_nodes rel_edges_def)

lemma build_graph_edges: "edge_set (build_graph rs ds) = rel_edges rs"
  by (simp add: build_graph_def foldl_add_edge_edges foldl_add_node_edges)
     (simp add: edge_set_def DiGraph_init_def)

lemma build_graph_nodes:
  "set (g_nodes (build_graph rs ds)) = id_td ` set ds \<union> fst ` rel_edges rs \<union> snd ` rel_edges rs"
  by (simp add: build_graph_def foldl_add_edge_nodes foldl_add_node_nodes DiGraph_init_def)

subsection \<open>The collecting loops\<close>

lemma paths_loop_nodes:
  "map nodes (fst (paths_loop ps st)) = map nodes (fst st) @ filter (\<lambda>p. 2 \<le> length p) ps"
  by (induction ps st rule: paths_loop.induct) (auto simp: Chain_init_def)

lemma paths_loop_length: "lengths_ok (fst st) \<Longrightarrow> lengths_ok (fst (paths_loop ps st))"
  by (induction ps st rule: paths_loop.induct) (simp_all add: Chain_init_def lengths_ok_def)

lemma target_loop_nodes:
  "map nodes (fst (target_loop G s ts st)) = map nodes (fst st) @ concat (map (paths_between G s) ts)"
  by (induction G s ts st rule: target_loop.induct)
     (auto simp: paths_between_def paths_loop_nodes split: sum.splits)

lemma target_loop_length: "lengths_ok (fst st) \<Longrightarrow> lengths_ok (fst (target_loop G s ts st))"
  by (induction G s ts st rule: target_loop.induct)
     (simp_all add: paths_loop_length split: sum.splits)

lemma source_loop_nodes:
  "map nodes (fst (source_loop G ss st))
   = map nodes (fst st) @ concat (map (\<lambda>s. concat (map (paths_between G s) (g_nodes G))) ss)"
  by (induction G ss st rule: source_loop.induct) (auto simp: target_loop_nodes)

lemma source_loop_length: "lengths_ok (fst st) \<Longrightarrow> lengths_ok (fst (source_loop G ss st))"
  by (induction G ss st rule: source_loop.induct) (simp_all add: target_loop_length)

lemma candidate_chains_nodes: "map nodes (candidate_chains G) = candidate_paths G"
  by (simp add: candidate_chains_def candidate_paths_def source_loop_nodes)

lemma candidate_chains_length: "lengths_ok (candidate_chains G)"
  unfolding candidate_chains_def by (rule source_loop_length) (simp add: lengths_ok_def)

subsection \<open>The candidate paths are the bounded simple paths\<close>

lemma set_paths_between:
  "set (paths_between G s t) =
     (if s \<in> set (g_nodes G) \<and> t \<in> set (g_nodes G) \<and> s \<noteq> t
      then {p. simple_path_upto (edge_set G) 20 p \<and> hd p = s \<and> last p = t} else {})"
proof (cases "s \<in> set (g_nodes G) \<and> t \<in> set (g_nodes G) \<and> s \<noteq> t")
  case True
  then have "set (paths_between G s t) =
     {p \<in> set (simple_paths_dfs G t [s] 20). 2 \<le> length p}"
    by (simp add: paths_between_def all_simple_paths_def)
  also have "\<dots> = {p. simple_path_upto (edge_set G) 20 p \<and> hd p = s \<and> last p = t}"
    using True by (auto simp: set_simple_paths_dfs simple_path_upto_def)
  finally show ?thesis using True by simp
next
  case False
  then show ?thesis by (auto simp: paths_between_def all_simple_paths_def)
qed

lemma hd_neq_last: "distinct p \<Longrightarrow> 2 \<le> length p \<Longrightarrow> hd p \<noteq> last p"
  by (cases p) auto

lemma set_candidate_paths:
  "set (candidate_paths G) =
     {p. simple_path_upto (edge_set G) 20 p \<and> hd p \<in> set (g_nodes G) \<and> last p \<in> set (g_nodes G)}"
proof -
  have "set (candidate_paths G) = (\<Union>s \<in> set (g_nodes G). \<Union>t \<in> set (g_nodes G). set (paths_between G s t))"
    by (simp add: candidate_paths_def)
  also have "\<dots> = {p. simple_path_upto (edge_set G) 20 p \<and> hd p \<in> set (g_nodes G) \<and> last p \<in> set (g_nodes G)}"
    by (auto simp: set_paths_between simple_path_upto_def hd_neq_last split: if_splits)
  finally show ?thesis .
qed

lemma hd_in_consecutive: "2 \<le> length p \<Longrightarrow> hd p \<in> fst ` consecutive p"
  by (cases p; cases "tl p") (force simp: consecutive_def)+

lemma last_in_consecutive: "2 \<le> length p \<Longrightarrow> last p \<in> snd ` consecutive p"
proof (induction p)
  case Nil
  then show ?case by simp
next
  case (Cons a p)
  show ?case
  proof (cases "2 \<le> length p")
    case True
    then have "last p \<in> snd ` consecutive p" using Cons.IH by simp
    moreover have "consecutive p \<subseteq> consecutive (a # p)"
      by (cases p) (auto simp: consecutive_def)
    moreover have "last (a # p) = last p" using True by auto
    ultimately show ?thesis by auto
  next
    case False
    then obtain b where "p = [b]" using Cons.prems by (cases p; cases "tl p") auto
    then show ?thesis by (force simp: consecutive_def)
  qed
qed

lemma set_candidate_paths_build:
  "set (candidate_paths (build_graph rs ds)) = {p. simple_path_upto (rel_edges rs) 20 p}"
proof -
  have "hd p \<in> set (g_nodes (build_graph rs ds)) \<and> last p \<in> set (g_nodes (build_graph rs ds))"
    if "simple_path_upto (rel_edges rs) 20 p" for p
  proof -
    from that have l: "2 \<le> length p" and c: "consecutive p \<subseteq> rel_edges rs"
      by (auto simp: simple_path_upto_def)
    have "hd p \<in> fst ` rel_edges rs" using hd_in_consecutive [OF l] c by auto
    moreover have "last p \<in> snd ` rel_edges rs" using last_in_consecutive [OF l] c by auto
    ultimately show ?thesis by (simp add: build_graph_nodes)
  qed
  then show ?thesis by (auto simp: set_candidate_paths build_graph_edges)
qed

subsection \<open>Every simple path is enumerated once\<close>

lemma distinct_successors:
  assumes "distinct (map fst (g_edges G))"
  shows "distinct (successors G u)"
proof -
  have "distinct (filter (\<lambda>e. fst e = u) (map fst (g_edges G)))"
    using assms by (rule distinct_filter)
  moreover have "inj_on snd (set (filter (\<lambda>e. fst e = u) (map fst (g_edges G))))"
    by (rule inj_onI) (auto simp: prod_eq_iff)
  ultimately show ?thesis by (simp add: successors_def distinct_map)
qed

lemma distinct_concat_map:
  assumes "distinct xs" and "\<And>x. x \<in> set xs \<Longrightarrow> distinct (f x)"
    and "\<And>x y. x \<in> set xs \<Longrightarrow> y \<in> set xs \<Longrightarrow> x \<noteq> y \<Longrightarrow> set (f x) \<inter> set (f y) = {}"
  shows "distinct (concat (map f xs))"
  using assms
proof (induction xs)
  case Nil
  then show ?case by simp
next
  case (Cons a xs)
  have "distinct (concat (map f xs))" using Cons by simp
  moreover have "distinct (f a)" using Cons.prems(2) by simp
  moreover have "set (f a) \<inter> set (f x) = {}" if "x \<in> set xs" for x
    using Cons.prems(1,3) that by auto
  ultimately show ?case by auto
qed

lemma dfs_prefix: "p \<in> set (simple_paths_dfs G t vis k) \<Longrightarrow> take (length vis) p = vis \<and> length vis < length p"
  using dfs_sound [of p G t vis k] by auto

lemma distinct_dfs:
  assumes "distinct (map fst (g_edges G))"
  shows "distinct (simple_paths_dfs G t vis k)"
proof (induction k arbitrary: vis)
  case 0
  then show ?case by (simp add: simple_paths_dfs.simps)
next
  case (Suc k)
  let ?f = "\<lambda>child. if child \<in> set vis then []
                    else if child = t then [vis @ [child]]
                    else simple_paths_dfs G t (vis @ [child]) k"
  have ext: "p ! length vis = c" if "p \<in> set (?f c)" for p c
  proof -
    from that have c: "c \<notin> set vis" by (auto split: if_splits)
    show ?thesis
    proof (cases "c = t")
      case True
      then show ?thesis using that c by simp
    next
      case False
      then have "p \<in> set (simple_paths_dfs G t (vis @ [c]) k)" using that c by simp
      from dfs_prefix [OF this] have "take (Suc (length vis)) p = vis @ [c]" by simp
      then have "take (Suc (length vis)) p ! length vis = (vis @ [c]) ! length vis" by simp
      then show ?thesis by simp
    qed
  qed
  have "distinct (concat (map ?f (successors G (last vis))))"
  proof (rule distinct_concat_map)
    show "distinct (successors G (last vis))" using assms by (rule distinct_successors)
    show "distinct (?f x)" for x using Suc.IH by simp
    show "set (?f x) \<inter> set (?f y) = {}" if "x \<noteq> y" for x y
      using ext [of _ x] ext [of _ y] that by blast
  qed
  then show ?case by (simp add: simple_paths_dfs.simps)
qed

lemma distinct_paths_between:
  "distinct (map fst (g_edges G)) \<Longrightarrow> distinct (paths_between G s t)"
  by (simp add: paths_between_def all_simple_paths_def distinct_dfs)

lemma paths_between_ends:
  "p \<in> set (paths_between G s t) \<Longrightarrow> hd p = s \<and> last p = t"
  by (auto simp: set_paths_between split: if_splits)

lemma distinct_candidate_paths:
  assumes "distinct (map fst (g_edges G))" "distinct (g_nodes G)"
  shows "distinct (candidate_paths G)"
  unfolding candidate_paths_def
proof (rule distinct_concat_map)
  show "distinct (g_nodes G)" by fact
  show "distinct (concat (map (paths_between G s) (g_nodes G)))" for s
  proof (rule distinct_concat_map)
    show "distinct (g_nodes G)" by fact
    show "distinct (paths_between G s t)" for t
      using assms(1) by (rule distinct_paths_between)
    show "set (paths_between G s x) \<inter> set (paths_between G s y) = {}" if "x \<noteq> y" for x y
      using paths_between_ends [of _ G s x] paths_between_ends [of _ G s y] that by blast
  qed
  show "set (concat (map (paths_between G x) (g_nodes G)))
        \<inter> set (concat (map (paths_between G y) (g_nodes G))) = {}" if "x \<noteq> y" for x y
  proof -
    have "hd p = x" if "p \<in> set (concat (map (paths_between G x) (g_nodes G)))" for p x
      using that paths_between_ends [of p G x] by auto
    then show ?thesis using that by blast
  qed
qed

lemma add_node_distinct: "distinct (g_nodes G) \<Longrightarrow> distinct (g_nodes (add_node G n))"
  by (simp add: add_node_def)

lemma add_edge_distinct_nodes: "distinct (g_nodes G) \<Longrightarrow> distinct (g_nodes (add_edge G u v d))"
  by (simp add: add_edge_def Let_def add_node_distinct)

lemma build_graph_wf:
  "distinct (g_nodes (build_graph rs ds)) \<and> distinct (map fst (g_edges (build_graph rs ds)))"
proof -
  have a: "distinct (g_nodes (foldl (\<lambda>g debt. add_node g (id_td debt)) G ds))
           \<and> distinct (map fst (g_edges (foldl (\<lambda>g debt. add_node g (id_td debt)) G ds)))"
    if "distinct (g_nodes G) \<and> distinct (map fst (g_edges G))" for G
    using that by (induction ds arbitrary: G) (simp_all add: add_node_distinct add_node_simps)
  have b: "distinct (g_nodes (foldl (\<lambda>g rel. add_edge g (source_id rel) (target_id rel)
                                       (edge_data_of rel)) G rs))
           \<and> distinct (map fst (g_edges (foldl (\<lambda>g rel. add_edge g (source_id rel) (target_id rel)
                                       (edge_data_of rel)) G rs)))"
    if "distinct (g_nodes G) \<and> distinct (map fst (g_edges G))" for G
    using that by (induction rs arbitrary: G) (simp_all add: add_edge_distinct_nodes add_edge_distinct)
  show ?thesis unfolding build_graph_def by (intro b a) (simp add: DiGraph_init_def)
qed

lemma distinct_candidates_build: "distinct (map nodes (candidate_chains (build_graph rs ds)))"
  unfolding candidate_chains_nodes using build_graph_wf [of rs ds]
  by (intro distinct_candidate_paths) simp_all

subsection \<open>Deduplication\<close>

lemma dedup_loop_inv:
  assumes "S = path_str ` set u" "distinct (map path_str u)"
  shows "snd (dedup_loop cs (u, S)) = path_str ` set (fst (dedup_loop cs (u, S)))
         \<and> distinct (map path_str (fst (dedup_loop cs (u, S))))
         \<and> set (fst (dedup_loop cs (u, S))) \<subseteq> set u \<union> set cs
         \<and> path_str ` set (fst (dedup_loop cs (u, S))) = path_str ` (set u \<union> set cs)"
  using assms
proof (induction cs arbitrary: u S)
  case Nil
  then show ?case by simp
next
  case (Cons c cs)
  show ?case
  proof (cases "path_str c \<in> S")
    case True
    then have step: "dedup_loop (c # cs) (u, S) = dedup_loop cs (u, S)"
      by (simp add: path_str_def)
    have "path_str ` (set u \<union> set cs) = path_str ` (set u \<union> set (c # cs))"
      using True Cons.prems(1) by auto
    then show ?thesis using Cons.IH [OF Cons.prems] unfolding step by auto
  next
    case False
    then have step: "dedup_loop (c # cs) (u, S) = dedup_loop cs (u @ [c], insert (path_str c) S)"
      by (simp add: path_str_def)
    have a: "insert (path_str c) S = path_str ` set (u @ [c])" using Cons.prems(1) by auto
    have b: "distinct (map path_str (u @ [c]))" using Cons.prems False by auto
    have "set (u @ [c]) \<union> set cs = set u \<union> set (c # cs)" by auto
    then show ?thesis using Cons.IH [OF a b] unfolding step by auto
  qed
qed

lemma unique_chains_subset: "set (unique_chains_of cs) \<subseteq> set cs"
  using dedup_loop_inv [of "{}" "[]" cs] by (simp add: unique_chains_of_def)

lemma unique_chains_distinct: "distinct (map nodes (unique_chains_of cs))"
proof -
  have "distinct (map path_str (unique_chains_of cs))"
    using dedup_loop_inv [of "{}" "[]" cs] by (simp add: unique_chains_of_def)
  moreover have "path_str = (\<lambda>x. join '','' (nodes x))" by (rule ext) (simp add: path_str_def)
  ultimately have "distinct (map (join '','') (map nodes (unique_chains_of cs)))"
    by (simp add: comp_def)
  then show ?thesis by (rule distinct_map [THEN iffD1, THEN conjunct1])
qed

lemma unique_chains_keys: "path_str ` set (unique_chains_of cs) = path_str ` set cs"
  using dedup_loop_inv [of "{}" "[]" cs] by (simp add: unique_chains_of_def)

lemma lengths_ok_subset: "lengths_ok cs \<Longrightarrow> set ds \<subseteq> set cs \<Longrightarrow> lengths_ok ds"
  by (auto simp: lengths_ok_def list_all_iff)

subsection \<open>The returned chains\<close>

lemma find_chains_snd:
  "snd (find_chains rs ds) = sort_by_length_desc (unique_chains_of (candidate_chains (build_graph rs ds)))"
  by (simp add: find_chains_def Let_def)

lemma returned_subset:
  "set (snd (find_chains rs ds)) \<subseteq> set (candidate_chains (build_graph rs ds))"
  using unique_chains_subset by (simp add: find_chains_snd sort_by_length_desc_def)

lemma candidate_chain_props:
  assumes "c \<in> set (candidate_chains (build_graph rs ds))"
  shows "length_ch c = length (nodes c) \<and> simple_path_upto (rel_edges rs) 20 (nodes c)"
proof -
  have "nodes c \<in> set (candidate_paths (build_graph rs ds))"
    using assms candidate_chains_nodes [of "build_graph rs ds", symmetric] by simp
  then have "simple_path_upto (rel_edges rs) 20 (nodes c)"
    by (simp add: set_candidate_paths_build)
  moreover have "length_ch c = length (nodes c)"
    using candidate_chains_length [of "build_graph rs ds"] assms
    by (simp add: lengths_ok_def list_all_iff)
  ultimately show ?thesis by simp
qed

lemma consecutive_index:
  "consecutive p \<subseteq> E \<longleftrightarrow> (\<forall>i. Suc i < length p \<longrightarrow> (p ! i, p ! Suc i) \<in> E)"
proof
  assume a: "consecutive p \<subseteq> E"
  show "\<forall>i. Suc i < length p \<longrightarrow> (p ! i, p ! Suc i) \<in> E"
  proof (intro allI impI)
    fix i assume i: "Suc i < length p"
    then have "i < length (zip p (tl p))" by simp
    then have "zip p (tl p) ! i \<in> set (zip p (tl p))" by (rule nth_mem)
    moreover have "zip p (tl p) ! i = (p ! i, p ! Suc i)" using i by (simp add: nth_tl)
    ultimately show "(p ! i, p ! Suc i) \<in> E" using a by (auto simp: consecutive_def)
  qed
next
  assume a: "\<forall>i. Suc i < length p \<longrightarrow> (p ! i, p ! Suc i) \<in> E"
  show "consecutive p \<subseteq> E"
  proof
    fix e assume "e \<in> consecutive p"
    then obtain i where i: "i < length (zip p (tl p))" "e = zip p (tl p) ! i"
      by (auto simp: consecutive_def in_set_conv_nth)
    then have "Suc i < length p" by simp
    moreover from this have "e = (p ! i, p ! Suc i)" using i by (simp add: nth_tl)
    ultimately show "e \<in> E" using a by simp
  qed
qed

text \<open>
  Claim C5. Every chain that \<^verbatim>\<open>find_chains\<close> returns has at least two nodes, its length
  being the number of its nodes, repeats no node, and each of its consecutive pairs
  \<open>(nodes[i], nodes[i+1])\<close> is an edge of the graph built from the relationships; no two
  returned chains have the same node sequence.
\<close>

theorem chains_valid:
  "(\<forall>c \<in> set (snd (find_chains rs ds)).
      2 \<le> length_ch c \<and> length_ch c = length (nodes c) \<and> distinct (nodes c)
      \<and> (\<forall>i. Suc i < length (nodes c) \<longrightarrow> (nodes c ! i, nodes c ! Suc i) \<in> edge_set (build_graph rs ds)))
   \<and> distinct (map nodes (snd (find_chains rs ds)))"
proof
  show "\<forall>c \<in> set (snd (find_chains rs ds)).
      2 \<le> length_ch c \<and> length_ch c = length (nodes c) \<and> distinct (nodes c)
      \<and> (\<forall>i. Suc i < length (nodes c) \<longrightarrow> (nodes c ! i, nodes c ! Suc i) \<in> edge_set (build_graph rs ds))"
  proof
    fix c assume "c \<in> set (snd (find_chains rs ds))"
    then have "c \<in> set (candidate_chains (build_graph rs ds))" using returned_subset by blast
    from candidate_chain_props [OF this]
    show "2 \<le> length_ch c \<and> length_ch c = length (nodes c) \<and> distinct (nodes c)
      \<and> (\<forall>i. Suc i < length (nodes c) \<longrightarrow> (nodes c ! i, nodes c ! Suc i) \<in> edge_set (build_graph rs ds))"
      by (simp add: simple_path_upto_def consecutive_index build_graph_edges)
  qed
next
  have "distinct (map nodes (unique_chains_of (candidate_chains (build_graph rs ds))))"
    by (rule unique_chains_distinct)
  then show "distinct (map nodes (snd (find_chains rs ds)))"
    unfolding find_chains_snd sort_by_length_desc_def
    by (simp add: distinct_map)
qed

text \<open>
  Claim C3, as the code has it. The search is cut off at the fixed depth 20; there is no
  \<open>max_hops\<close> parameter. The candidate chains of \<^verbatim>\<open>find_chains\<close> are exactly the simple
  paths of the graph with at least two nodes and at most 20 edges, each of them once, and
  every returned chain is one of them.
\<close>

theorem candidates_are_bounded_simple_paths:
  "set (map nodes (candidate_chains (build_graph rs ds))) = {p. simple_path_upto (rel_edges rs) 20 p}
   \<and> distinct (map nodes (candidate_chains (build_graph rs ds)))
   \<and> edge_set (build_graph rs ds) = rel_edges rs
   \<and> set (map nodes (snd (find_chains rs ds))) \<subseteq> {p. simple_path_upto (rel_edges rs) 20 p}
   \<and> simple_path_upto (rel_edges rs) 20 p =
       (2 \<le> length p \<and> length p - 1 \<le> 20 \<and> distinct p
        \<and> (\<forall>i. Suc i < length p \<longrightarrow> (p ! i, p ! Suc i) \<in> rel_edges rs))"
proof (intro conjI)
  show "set (map nodes (candidate_chains (build_graph rs ds))) = {p. simple_path_upto (rel_edges rs) 20 p}"
    by (simp only: candidate_chains_nodes set_candidate_paths_build)
  show "distinct (map nodes (candidate_chains (build_graph rs ds)))"
    by (rule distinct_candidates_build)
  show "edge_set (build_graph rs ds) = rel_edges rs" by (rule build_graph_edges)
  show "set (map nodes (snd (find_chains rs ds))) \<subseteq> {p. simple_path_upto (rel_edges rs) 20 p}"
    using returned_subset [of rs ds] candidate_chain_props [of _ rs ds] by auto
  show "simple_path_upto (rel_edges rs) 20 p =
       (2 \<le> length p \<and> length p - 1 \<le> 20 \<and> distinct p
        \<and> (\<forall>i. Suc i < length p \<longrightarrow> (p ! i, p ! Suc i) \<in> rel_edges rs))"
    by (auto simp: simple_path_upto_def consecutive_index)
qed

text \<open>
  Claim C7, as the code has it. The returned chains are the deduplicated chains in a stable
  sort by length, longest first: chains of equal length keep the order in which the
  search found them, and no node id takes part in the order.
\<close>

theorem chains_sorted_stable:
  "sorted_wrt (\<lambda>a b. length_ch a \<ge> length_ch b) (snd (find_chains rs ds))
   \<and> filter (\<lambda>c. length_ch c = k) (snd (find_chains rs ds))
     = filter (\<lambda>c. length_ch c = k) (unique_chains_of (candidate_chains (build_graph rs ds)))"
proof
  let ?U = "unique_chains_of (candidate_chains (build_graph rs ds))"
  let ?f = "\<lambda>c. - int (length_ch c)"
  have "sorted (map ?f (sort_key ?f ?U))" by (rule sorted_sort_key)
  then have "sorted_wrt (\<lambda>a b. ?f a \<le> ?f b) (sort_key ?f ?U)"
    by (simp add: sorted_map)
  then show "sorted_wrt (\<lambda>a b. length_ch a \<ge> length_ch b) (snd (find_chains rs ds))"
    by (simp add: find_chains_snd sort_by_length_desc_def)
  have "filter (\<lambda>c. ?f c = - int k) (sort_key ?f ?U) = filter (\<lambda>c. ?f c = - int k) ?U"
    by (rule sort_key_stable)
  then show "filter (\<lambda>c. length_ch c = k) (snd (find_chains rs ds)) = filter (\<lambda>c. length_ch c = k) ?U"
    by (simp add: find_chains_snd sort_by_length_desc_def)
qed

subsection \<open>Concrete runs\<close>

lemmas graph_eval = build_graph_def add_edge_def add_node_def DiGraph_init_def edge_data_of_def
  SatdRelationship_init_def TechnicalDebt_init_def Let_def call_edge_def module_edge_def
  example_debt_def

lemmas chain_eval = candidate_chains_def all_simple_paths_def successors_def
  simple_paths_dfs.simps eval_nat_numeral Chain_init_def unique_chains_of_def
  sort_by_length_desc_def

lemma mem_candidate_paths:
  "s \<in> set (g_nodes G) \<Longrightarrow> t \<in> set (g_nodes G) \<Longrightarrow> p \<in> set (paths_between G s t)
   \<Longrightarrow> p \<in> set (candidate_paths G)"
  by (auto simp: candidate_paths_def)

lemma str_nat_small: "str_nat (Suc 0) = ''1''" "str_nat (Suc (Suc 0)) = ''2''"
proof -
  have "str_nat 1 = ''1''" "str_nat 2 = ''2''" by (simp_all add: digit_char_def)
  then show "str_nat (Suc 0) = ''1''" "str_nat (Suc (Suc 0)) = ''2''"
    by (simp_all add: numeral_2_eq_2)
qed

lemma fork_graph:
  "build_graph fork_rels fork_debts =
     \<lparr> g_nodes = [''b'', ''a'', ''c''],
       g_edges = [((''b'', ''c''), edge_data_of (call_edge ''b'' ''c'')),
                  ((''a'', ''c''), edge_data_of (call_edge ''a'' ''c''))] \<rparr>"
  by (simp add: fork_rels_def fork_debts_def graph_eval)

lemma fork_chains:
  "snd (find_chains fork_rels fork_debts) =
     [Chain_init ''chain-1'' [''b'', ''c''], Chain_init ''chain-2'' [''a'', ''c'']]"
  unfolding find_chains_def fork_graph Let_def
  by (simp add: chain_eval str_nat_small del: str_nat.simps)

lemma line7_graph:
  "build_graph line7 [] =
     \<lparr> g_nodes = [''n0'', ''n1'', ''n2'', ''n3'', ''n4'', ''n5'', ''n6''],
       g_edges = [((''n0'', ''n1''), edge_data_of (call_edge ''n0'' ''n1'')),
                  ((''n1'', ''n2''), edge_data_of (call_edge ''n1'' ''n2'')),
                  ((''n2'', ''n3''), edge_data_of (call_edge ''n2'' ''n3'')),
                  ((''n3'', ''n4''), edge_data_of (call_edge ''n3'' ''n4'')),
                  ((''n4'', ''n5''), edge_data_of (call_edge ''n4'' ''n5'')),
                  ((''n5'', ''n6''), edge_data_of (call_edge ''n5'' ''n6''))] \<rparr>"
  by (simp add: line7_def graph_eval)

text \<open>Against claim C3 as stated: on a line of seven instances the search enumerates the
  chain through all of them, which has six edges.\<close>

theorem six_edge_chain_counterexample:
  "[''n0'', ''n1'', ''n2'', ''n3'', ''n4'', ''n5'', ''n6'']
     \<in> set (map nodes (candidate_chains (build_graph line7 [])))
   \<and> length [''n0'', ''n1'', ''n2'', ''n3'', ''n4'', ''n5'', ''n6''] - 1 = (6::nat)"
proof -
  let ?G = "build_graph line7 []"
  have "simple_paths_dfs ?G ''n6'' [''n0''] 20 = [[''n0'', ''n1'', ''n2'', ''n3'', ''n4'', ''n5'', ''n6'']]"
    unfolding line7_graph by (simp add: simple_paths_dfs.simps eval_nat_numeral successors_def)
  then have "paths_between ?G ''n0'' ''n6'' = [[''n0'', ''n1'', ''n2'', ''n3'', ''n4'', ''n5'', ''n6'']]"
    by (simp add: paths_between_def all_simple_paths_def line7_graph)
  then have "[''n0'', ''n1'', ''n2'', ''n3'', ''n4'', ''n5'', ''n6''] \<in> set (candidate_paths ?G)"
    by (intro mem_candidate_paths [of "''n0''" _ "''n6''"]) (simp_all add: line7_graph)
  then show ?thesis by (simp only: candidate_chains_nodes) simp
qed

text \<open>Against claim C7 as stated: two chains of equal length are returned in the order of
  discovery, the one starting at \<open>b\<close> before the one starting at \<open>a\<close>.\<close>

theorem tie_order_counterexample:
  "map nodes (snd (find_chains fork_rels fork_debts)) = [[''b'', ''c''], [''a'', ''c'']]"
  by (simp add: fork_chains Chain_init_def)

theorem chains_valid_witness:
  "Chain_init ''chain-1'' [''b'', ''c''] \<in> set (snd (find_chains fork_rels fork_debts))
   \<and> 2 \<le> length_ch (Chain_init ''chain-1'' [''b'', ''c''])
   \<and> distinct (nodes (Chain_init ''chain-1'' [''b'', ''c'']))
   \<and> (''b'', ''c'') \<in> edge_set (build_graph fork_rels fork_debts)
   \<and> distinct (map nodes (snd (find_chains fork_rels fork_debts)))"
proof -
  let ?c = "Chain_init ''chain-1'' [''b'', ''c'']"
  have m: "?c \<in> set (snd (find_chains fork_rels fork_debts))" by (simp add: fork_chains)
  from chains_valid [of fork_rels fork_debts] m
  have v: "2 \<le> length_ch ?c \<and> length_ch ?c = length (nodes ?c) \<and> distinct (nodes ?c)
      \<and> (\<forall>i. Suc i < length (nodes ?c) \<longrightarrow> (nodes ?c ! i, nodes ?c ! Suc i) \<in> edge_set (build_graph fork_rels fork_debts))"
    and d: "distinct (map nodes (snd (find_chains fork_rels fork_debts)))" by blast+
  from v have "Suc 0 < length (nodes ?c) \<longrightarrow> (nodes ?c ! 0, nodes ?c ! Suc 0) \<in> edge_set (build_graph fork_rels fork_debts)"
    by blast
  then have "(''b'', ''c'') \<in> edge_set (build_graph fork_rels fork_debts)" by (simp add: Chain_init_def)
  with m v d show ?thesis by simp
qed

theorem candidates_are_bounded_simple_paths_witness:
  "[''b'', ''c''] \<in> set (map nodes (candidate_chains (build_graph fork_rels fork_debts)))
   \<and> [''b'', ''a''] \<notin> set (map nodes (candidate_chains (build_graph fork_rels fork_debts)))"
proof -
  have e: "rel_edges fork_rels = {(''b'', ''c''), (''a'', ''c'')}"
    by (auto simp: rel_edges_def fork_rels_def call_edge_def SatdRelationship_init_def)
  have "simple_path_upto (rel_edges fork_rels) 20 [''b'', ''c'']"
    using candidates_are_bounded_simple_paths [of fork_rels fork_debts "[''b'', ''c'']"]
    by (simp add: e nth_Cons')
  moreover have "\<not> simple_path_upto (rel_edges fork_rels) 20 [''b'', ''a'']"
    using candidates_are_bounded_simple_paths [of fork_rels fork_debts "[''b'', ''a'']"]
    by (simp add: e nth_Cons')
  ultimately show ?thesis
    using candidates_are_bounded_simple_paths [of fork_rels fork_debts "[]"] by blast
qed

section \<open>Relationships\<close>

subsection \<open>The analyzer's graph\<close>

lemma add_relationship_eq:
  "add_relationship G rel = add_edge G (source_id rel) (target_id rel) (edge_data_of rel)"
  by (auto simp: add_relationship_def add_edge_def add_node_def Let_def)

lemma add_edge_map_of:
  "map_of (g_edges (add_edge G u v d)) = (map_of (g_edges G)) ((u, v) \<mapsto> d)"
  by (simp add: add_edge_def Let_def add_node_simps update_conv')

lemma foldl_add_relationship_map_of:
  "map_of (g_edges (foldl add_relationship G rs)) = map_of (g_edges G) ++ map_of (rev (map keyed rs))"
proof (induction rs arbitrary: G)
  case Nil
  then show ?case by simp
next
  case (Cons r rs)
  have "map_of (g_edges (foldl add_relationship G (r # rs)))
        = map_of (g_edges (add_relationship G r)) ++ map_of (rev (map keyed rs))"
    using Cons.IH [of "add_relationship G r"] by simp
  also have "\<dots> = (map_of (g_edges G)) ((source_id r, target_id r) \<mapsto> edge_data_of r)
                   ++ map_of (rev (map keyed rs))"
    by (simp add: add_relationship_eq add_edge_map_of)
  also have "\<dots> = map_of (g_edges G) ++ map_of (rev (map keyed (r # rs)))"
    by (rule ext) (simp add: keyed_def map_add_def split: option.splits)
  finally show ?case .
qed

lemma foldl_add_relationship_distinct:
  "distinct (map fst (g_edges G)) \<Longrightarrow> distinct (map fst (g_edges (foldl add_relationship G rs)))"
  by (induction rs arbitrary: G) (simp_all add: add_relationship_eq add_edge_distinct)




subsection \<open>The loops of the extractors\<close>

lemma set_alist_update_subset: "set (AList.update k v al) \<subseteq> insert (k, v) (set al)"
  by (induction al) auto

lemma debt_by_file_add_members:
  assumes "\<forall>e \<in> set m. set (snd e) \<subseteq> A" "d \<in> A"
  shows "\<forall>e \<in> set (debt_by_file_add m d). set (snd e) \<subseteq> A"
proof
  fix e assume e: "e \<in> set (debt_by_file_add m d)"
  define old where "old = (case map_of m (file_td d) of None \<Rightarrow> [] | Some l \<Rightarrow> l)"
  have old: "set old \<subseteq> A"
  proof (cases "map_of m (file_td d)")
    case None
    then show ?thesis by (simp add: old_def)
  next
    case (Some l)
    then have "(file_td d, l) \<in> set m" by (rule map_of_SomeD)
    then have "set (snd (file_td d, l)) \<subseteq> A" using assms(1) by blast
    then show ?thesis using Some by (simp add: old_def)
  qed
  have "set (AList.update (file_td d) (old @ [d]) m) \<subseteq> insert (file_td d, old @ [d]) (set m)"
    by (rule set_alist_update_subset)
  moreover have "debt_by_file_add m d = AList.update (file_td d) (old @ [d]) m"
    by (simp add: debt_by_file_add_def old_def)
  ultimately have "e = (file_td d, old @ [d]) \<or> e \<in> set m" using e by auto
  then show "set (snd e) \<subseteq> A"
  proof
    assume "e = (file_td d, old @ [d])"
    then show ?thesis using old assms(2) by simp
  next
    assume "e \<in> set m"
    then show ?thesis using assms(1) by blast
  qed
qed

lemma foldl_debt_by_file_members:
  "\<forall>e \<in> set m. set (snd e) \<subseteq> A \<Longrightarrow> set ds \<subseteq> A
   \<Longrightarrow> \<forall>e \<in> set (foldl debt_by_file_add m ds). set (snd e) \<subseteq> A"
proof (induction ds arbitrary: m)
  case Nil
  then show ?case by simp
next
  case (Cons d ds)
  have "\<forall>e \<in> set (debt_by_file_add m d). set (snd e) \<subseteq> A"
    using Cons.prems by (intro debt_by_file_add_members) auto
  then show ?case using Cons.IH [of "debt_by_file_add m d"] Cons.prems(2) by simp
qed

lemma debt_by_file_members: "\<forall>e \<in> set (debt_by_file_of ds). set (snd e) \<subseteq> set ds"
  unfolding debt_by_file_of_def by (rule foldl_debt_by_file_members) simp_all

lemma step_keepsD:
  assumes "step_keeps P A step" "s \<in> A" "t \<in> A" "list_all P (fst st)" "step s t st = Inr st'"
  shows "list_all P (fst st')"
proof -
  obtain rels n where st: "st = (rels, n)" by (cases st)
  from assms(1,2,3)
  have "\<forall>rels n st'. list_all P rels \<longrightarrow> step s t (rels, n) = Inr st' \<longrightarrow> list_all P (fst st')"
    unfolding step_keeps_def by blast
  then have "list_all P rels \<longrightarrow> step s t (rels, n) = Inr st' \<longrightarrow> list_all P (fst st')"
    by blast
  then show ?thesis using assms(4,5) st by simp
qed

lemma target_debt_loop_keeps:
  assumes "step_keeps P A step" "s \<in> A"
  shows "set ts \<subseteq> A \<Longrightarrow> list_all P (fst st) \<Longrightarrow> target_debt_loop step s ts st = Inr st'
         \<Longrightarrow> list_all P (fst st')"
proof (induction ts arbitrary: st)
  case Nil
  then show ?case by simp
next
  case (Cons t ts)
  from Cons.prems(3) obtain st1 where s1: "step s t st = Inr st1"
    and r: "target_debt_loop step s ts st1 = Inr st'"
    by (auto split: sum.splits)
  have "t \<in> A" using Cons.prems(1) by simp
  then have "list_all P (fst st1)"
    using step_keepsD [OF assms(1,2) _ Cons.prems(2) s1] by simp
  then show ?case using Cons.IH [of st1] Cons.prems(1) r by simp
qed

lemma source_debt_loop_keeps:
  assumes "step_keeps P A step" "set ts \<subseteq> A"
  shows "set ss \<subseteq> A \<Longrightarrow> list_all P (fst st) \<Longrightarrow> source_debt_loop step ss ts st = Inr st'
         \<Longrightarrow> list_all P (fst st')"
proof (induction ss arbitrary: st)
  case Nil
  then show ?case by simp
next
  case (Cons s ss)
  from Cons.prems(3) obtain st1 where s1: "target_debt_loop step s ts st = Inr st1"
    and r: "source_debt_loop step ss ts st1 = Inr st'"
    by (auto split: sum.splits)
  have "s \<in> A" using Cons.prems(1) by simp
  then have "list_all P (fst st1)"
    using target_debt_loop_keeps [OF assms(1) _ assms(2) Cons.prems(2) s1] by simp
  then show ?case using Cons.IH [of st1] Cons.prems(1) r by simp
qed

lemma target_file_loop_keeps:
  assumes "step_keeps P A step" "set (snd src) \<subseteq> A"
  shows "\<forall>e \<in> set tgts. set (snd e) \<subseteq> A \<Longrightarrow> list_all P (fst st)
         \<Longrightarrow> target_file_loop rnd p step src tgts st = Inr st' \<Longrightarrow> list_all P (fst st')"
proof (induction tgts arbitrary: st)
  case Nil
  then show ?case by simp
next
  case (Cons tgt tgts)
  obtain rels n where st: "st = (rels, n)" by (cases st)
  have rest: "\<forall>e \<in> set tgts. set (snd e) \<subseteq> A" and tg: "set (snd tgt) \<subseteq> A"
    using Cons.prems(1) by simp_all
  consider (same) "fst src = fst tgt" | (skip) "fst src \<noteq> fst tgt" "rnd n > p"
    | (look) "fst src \<noteq> fst tgt" "\<not> rnd n > p" by blast
  then show ?case
  proof cases
    case same
    then have "target_file_loop rnd p step src tgts (rels, n) = Inr st'"
      using Cons.prems(3) st by simp
    then show ?thesis using Cons.IH [of "(rels, n)"] rest Cons.prems(2) st by simp
  next
    case skip
    then have "target_file_loop rnd p step src tgts (rels, n + 1) = Inr st'"
      using Cons.prems(3) st by simp
    then show ?thesis using Cons.IH [of "(rels, n + 1)"] rest Cons.prems(2) st by simp
  next
    case look
    then obtain st1 where s1: "source_debt_loop step (snd src) (snd tgt) (rels, n + 1) = Inr st1"
      and r: "target_file_loop rnd p step src tgts st1 = Inr st'"
      using Cons.prems(3) st by (auto split: sum.splits)
    have "list_all P (fst st1)"
      using source_debt_loop_keeps [OF assms(1) tg assms(2) _ s1] Cons.prems(2) st by simp
    then show ?thesis using Cons.IH [of st1] rest r by simp
  qed
qed

lemma source_file_loop_keeps:
  assumes "step_keeps P A step" "\<forall>e \<in> set items. set (snd e) \<subseteq> A"
  shows "\<forall>e \<in> set srcs. set (snd e) \<subseteq> A \<Longrightarrow> list_all P (fst st)
         \<Longrightarrow> source_file_loop rnd p step srcs items st = Inr st' \<Longrightarrow> list_all P (fst st')"
proof (induction srcs arbitrary: st)
  case Nil
  then show ?case by simp
next
  case (Cons src srcs)
  from Cons.prems(3) obtain st1 where s1: "target_file_loop rnd p step src items st = Inr st1"
    and r: "source_file_loop rnd p step srcs items st1 = Inr st'"
    by (auto split: sum.splits)
  have "set (snd src) \<subseteq> A" using Cons.prems(1) by simp
  then have "list_all P (fst st1)"
    using target_file_loop_keeps [OF assms(1) _ assms(2) Cons.prems(2) s1] by simp
  then show ?case using Cons.IH [of st1] Cons.prems(1) r by simp
qed

lemma extractor_keeps:
  assumes "step_keeps P (set ds) step"
    and "source_file_loop rnd p step (debt_by_file_of ds) (debt_by_file_of ds) ([], n) = Inr st'"
  shows "list_all P (fst st')"
  using source_file_loop_keeps [OF assms(1) debt_by_file_members debt_by_file_members _ assms(2)]
  by simp

subsection \<open>What the loop bodies add\<close>

lemma raw_relationship_Inr:
  assumes "raw_relationship s t ty d = Inr r"
  shows "source_id r = s \<and> target_id r = t \<and> types r = [ty]
         \<and> map_of relationship_strengths ty = Some (strength r)"
  using assms
  by (auto simp: raw_relationship_def SatdRelationship_init_def split: option.splits)

lemma call_pair_adds:
  assumes "call_pair rnd s t (rels, n) = Inr st'"
  shows "fst st' = rels
         \<or> (\<exists>r. fst st' = rels @ [r] \<and> id_td s \<noteq> id_td t \<and> source_id r = id_td s
                 \<and> target_id r = id_td t \<and> types r = [''call''] \<and> strength r = 8 / 10)"
proof -
  have "strength r = 8 / 10 \<and> source_id r = a \<and> target_id r = b \<and> types r = [''call'']"
    if "raw_relationship a b ''call'' d = Inr r" for a b d r
    using raw_relationship_Inr [OF that] by (simp add: relationship_strengths_def)
  then show ?thesis using assms
    by (auto simp: call_pair_def split: if_splits sum.splits option.splits)
qed

lemma typed_pair_adds:
  assumes "typed_pair rnd q ty pre mid s t (rels, n) = Inr st'"
  shows "fst st' = rels
         \<or> (\<exists>r. fst st' = rels @ [r] \<and> id_td s \<noteq> id_td t \<and> source_id r = id_td s
                 \<and> target_id r = id_td t \<and> types r = [ty]
                 \<and> map_of relationship_strengths ty = Some (strength r))"
  using assms raw_relationship_Inr [of "id_td s" "id_td t" ty]
  by (auto simp: typed_pair_def split: if_splits sum.splits)


lemma call_pair_keeps_typed: "step_keeps (single_typed ''call'' (8 / 10)) A (call_pair rnd)"
  unfolding step_keeps_def
proof (intro ballI allI impI)
  fix s t rels n st'
  assume "list_all (single_typed ''call'' (8 / 10)) rels" "call_pair rnd s t (rels, n) = Inr st'"
  then show "list_all (single_typed ''call'' (8 / 10)) (fst st')"
    using call_pair_adds [of rnd s t rels n st'] by (auto simp: single_typed_def)
qed


lemma typed_pair_keeps_typed:
  assumes "map_of relationship_strengths ty = Some w"
  shows "step_keeps (single_typed ty w) A (typed_pair rnd q ty pre mid)"
  unfolding step_keeps_def
proof (intro ballI allI impI)
  fix s t rels n st'
  assume "list_all (single_typed ty w) rels" "typed_pair rnd q ty pre mid s t (rels, n) = Inr st'"
  then show "list_all (single_typed ty w) (fst st')"
    using typed_pair_adds [of rnd q ty pre mid s t rels n st'] assms
    by (auto simp: single_typed_def)
qed

subsection \<open>What the extractors and \<^verbatim>\<open>find_all_relationships\<close> return\<close>

lemma data_strength: "map_of relationship_strengths ''data'' = Some (7 / 10)"
  by (simp add: relationship_strengths_def)

lemma control_strength: "map_of relationship_strengths ''control'' = Some (6 / 10)"
  by (simp add: relationship_strengths_def)


lemma call_extractor_typed:
  assumes "analyze_call_dependencies rnd ds n = Inr (rels, n')"
  shows "list_all (single_typed ''call'' (8 / 10)) rels"
proof -
  from assms have "source_file_loop rnd (3 / 10) (call_pair rnd) (debt_by_file_of ds) (debt_by_file_of ds) ([], n)
      = Inr (rels, n')"
    by (simp add: analyze_call_dependencies_def Let_def)
  from extractor_keeps [OF call_pair_keeps_typed this] show ?thesis by simp
qed


lemma data_extractor_typed:
  assumes "analyze_data_dependencies rnd ds n = Inr (rels, n')"
  shows "list_all (single_typed ''data'' (7 / 10)) rels"
proof -
  from assms have "source_file_loop rnd (25 / 100) (typed_pair rnd (15 / 100) ''data'' ''Data dependency: '' '' uses data from '') (debt_by_file_of ds) (debt_by_file_of ds) ([], n)
      = Inr (rels, n')"
    by (simp add: analyze_data_dependencies_def Let_def)
  from extractor_keeps [OF typed_pair_keeps_typed [OF data_strength] this] show ?thesis by simp
qed


lemma control_extractor_typed:
  assumes "analyze_control_flow_dependencies rnd ds n = Inr (rels, n')"
  shows "list_all (single_typed ''control'' (6 / 10)) rels"
proof -
  from assms have "source_file_loop rnd (2 / 10) (typed_pair rnd (1 / 10) ''control'' ''Control flow: '' '' affects execution path to '') (debt_by_file_of ds) (debt_by_file_of ds) ([], n)
      = Inr (rels, n')"
    by (simp add: analyze_control_flow_dependencies_def Let_def)
  from extractor_keeps [OF typed_pair_keeps_typed [OF control_strength] this] show ?thesis by simp
qed

text \<open>The call ends with the exception of the call extractor or, when that returns, with
  the \<^verbatim>\<open>AttributeError\<close> of the next lookup; the graph is as before.\<close>

lemma find_all_relationships_raises:
  "find_all_relationships G rnd ds n =
     (case analyze_call_dependencies rnd ds n of
        Inl err \<Rightarrow> (Inl err, G)
      | Inr st \<Rightarrow> (Inl AttributeError, G))"
  by (simp add: find_all_relationships_def self_extractor_def split: sum.splits prod.splits)

lemma str_small: "str_int 1 = ''1''" "str_int 7 = ''7''"
  by (simp_all add: str_int_def digit_char_def)

lemmas extractor_eval = analyze_call_dependencies_def debt_by_file_of_def debt_by_file_add_def
  call_pair_def raw_relationship_def relationship_strengths_def dependency_text_def
  TechnicalDebt_init_def SatdRelationship_init_def tape_of_def str_small

lemma twin_run:
  "analyze_call_dependencies twin_tape twin_debts 0
   = Inr ([twin_call ''a/b.py'', twin_call ''a_b.py''], 10)"
  by (simp add: extractor_eval twin_tape_def twin_debts_def twin_call_def del: str_nat.simps)


lemma data_run: "analyze_data_dependencies low_tape twin_debts 0 = Inr ([twin_data], 7)"
  by (simp add: analyze_data_dependencies_def typed_pair_def debt_by_file_of_def
      debt_by_file_add_def raw_relationship_def relationship_strengths_def dependency_text_def
      TechnicalDebt_init_def SatdRelationship_init_def tape_of_def str_small
      low_tape_def twin_debts_def twin_data_def del: str_nat.simps)

lemma control_run:
  "analyze_control_flow_dependencies low_tape twin_debts 0 = Inr ([twin_control], 7)"
  by (simp add: analyze_control_flow_dependencies_def typed_pair_def debt_by_file_of_def
      debt_by_file_add_def raw_relationship_def relationship_strengths_def dependency_text_def
      TechnicalDebt_init_def SatdRelationship_init_def tape_of_def str_small
      low_tape_def twin_debts_def twin_control_def del: str_nat.simps)

text \<open>
  Claim C2, as the code has it. Nothing is merged. Every relationship that an extractor
  returns has exactly one type and the base strength of that type (call 0.8, data 0.7,
  control 0.6; the table also has module 0.9), whether or not another relationship joins
  the same ordered pair. The loop that adds relationships to the graph gives an ordered
  pair one edge, with the types and the strength of the last relationship for the pair,
  not with a union of types or a maximum of strengths.
\<close>

theorem relationships_stay_single_typed:
  "(analyze_call_dependencies rnd ds n = Inr (call_rel, n1)
      \<longrightarrow> (\<forall>r \<in> set call_rel. types r = [''call''] \<and> strength r = 8 / 10))
   \<and> (analyze_data_dependencies rnd ds n = Inr (data_rel, n2)
      \<longrightarrow> (\<forall>r \<in> set data_rel. types r = [''data''] \<and> strength r = 7 / 10))
   \<and> (analyze_control_flow_dependencies rnd ds n = Inr (control_rel, n3)
      \<longrightarrow> (\<forall>r \<in> set control_rel. types r = [''control''] \<and> strength r = 6 / 10))
   \<and> map_of relationship_strengths
       = [''call'' \<mapsto> 8 / 10, ''data'' \<mapsto> 7 / 10, ''control'' \<mapsto> 6 / 10, ''module'' \<mapsto> 9 / 10]
   \<and> (distinct (map fst (g_edges G))
        \<longrightarrow> distinct (map fst (g_edges (register_relationships G all))))
   \<and> map_of (g_edges (register_relationships G all))
       = map_of (g_edges G) ++ map_of (rev (map keyed all))"
proof (intro conjI impI)
  show "\<forall>r \<in> set call_rel. types r = [''call''] \<and> strength r = 8 / 10"
    if "analyze_call_dependencies rnd ds n = Inr (call_rel, n1)"
    using call_extractor_typed [OF that] by (simp add: list_all_iff single_typed_def)
  show "\<forall>r \<in> set data_rel. types r = [''data''] \<and> strength r = 7 / 10"
    if "analyze_data_dependencies rnd ds n = Inr (data_rel, n2)"
    using data_extractor_typed [OF that] by (simp add: list_all_iff single_typed_def)
  show "\<forall>r \<in> set control_rel. types r = [''control''] \<and> strength r = 6 / 10"
    if "analyze_control_flow_dependencies rnd ds n = Inr (control_rel, n3)"
    using control_extractor_typed [OF that] by (simp add: list_all_iff single_typed_def)
  show "map_of relationship_strengths
       = [''call'' \<mapsto> 8 / 10, ''data'' \<mapsto> 7 / 10, ''control'' \<mapsto> 6 / 10, ''module'' \<mapsto> 9 / 10]"
    by (rule ext) (simp add: relationship_strengths_def)
  show "distinct (map fst (g_edges (register_relationships G all)))"
    if "distinct (map fst (g_edges G))"
    unfolding register_relationships_def using that by (rule foldl_add_relationship_distinct)
  show "map_of (g_edges (register_relationships G all))
       = map_of (g_edges G) ++ map_of (rev (map keyed all))"
    unfolding register_relationships_def by (rule foldl_add_relationship_map_of)
qed

text \<open>Against claim C2 as stated: the call extractor finds the raw call edge from
  \<open>a_b.py_1\<close> to \<open>c.py_7\<close> twice and returns it as two relationships, and
  \<^verbatim>\<open>find_all_relationships\<close> ends with an \<^verbatim>\<open>AttributeError\<close> and returns no relationship
  at all.\<close>

theorem unmerged_calls_counterexample:
  "analyze_call_dependencies twin_tape twin_debts 0
     = Inr ([twin_call ''a/b.py'', twin_call ''a_b.py''], 10)
   \<and> source_id (twin_call ''a/b.py'') = source_id (twin_call ''a_b.py'')
   \<and> target_id (twin_call ''a/b.py'') = target_id (twin_call ''a_b.py'')
   \<and> find_all_relationships DiGraph_init twin_tape twin_debts 0 = (Inl AttributeError, DiGraph_init)"
  by (simp add: find_all_relationships_raises twin_run) (simp add: twin_call_def SatdRelationship_init_def)

theorem relationships_stay_single_typed_witness:
  "analyze_call_dependencies twin_tape twin_debts 0
     = Inr ([twin_call ''a/b.py'', twin_call ''a_b.py''], 10)
   \<and> types (twin_call ''a_b.py'') = [''call'']
   \<and> strength (twin_call ''a_b.py'') = 8 / 10
   \<and> analyze_data_dependencies low_tape twin_debts 0 = Inr ([twin_data], 7)
   \<and> types twin_data = [''data''] \<and> strength twin_data = 7 / 10
   \<and> analyze_control_flow_dependencies low_tape twin_debts 0 = Inr ([twin_control], 7)
   \<and> types twin_control = [''control''] \<and> strength twin_control = 6 / 10
   \<and> distinct (map fst (g_edges DiGraph_init))
   \<and> distinct (map fst (g_edges (register_relationships DiGraph_init
                                   [call_edge ''A'' ''B'', module_edge ''A'' ''B''])))
   \<and> map_of (g_edges (register_relationships DiGraph_init
                         [call_edge ''A'' ''B'', module_edge ''A'' ''B''])) (''A'', ''B'')
       = Some (edge_data_of (module_edge ''A'' ''B''))"
proof -
  let ?all = "[call_edge ''A'' ''B'', module_edge ''A'' ''B'']"
  note t = relationships_stay_single_typed [of twin_tape twin_debts 0
      "[twin_call ''a/b.py'', twin_call ''a_b.py'']" 10 _ _ _ _ DiGraph_init ?all]
  note u = relationships_stay_single_typed [of low_tape twin_debts 0 _ _
      "[twin_data]" 7 "[twin_control]" 7]
  have d: "distinct (map fst (g_edges DiGraph_init))" by (simp add: DiGraph_init_def)
  from t twin_run
  have "\<forall>r \<in> set [twin_call ''a/b.py'', twin_call ''a_b.py''].
          types r = [''call''] \<and> strength r = 8 / 10" by blast
  then have a: "types (twin_call ''a_b.py'') = [''call''] \<and> strength (twin_call ''a_b.py'') = 8 / 10"
    by simp
  from u data_run
  have "\<forall>r \<in> set [twin_data]. types r = [''data''] \<and> strength r = 7 / 10" by blast
  then have b: "types twin_data = [''data''] \<and> strength twin_data = 7 / 10" by simp
  from u control_run
  have "\<forall>r \<in> set [twin_control]. types r = [''control''] \<and> strength r = 6 / 10" by blast
  then have c: "types twin_control = [''control''] \<and> strength twin_control = 6 / 10" by simp
  from t d have dd: "distinct (map fst (g_edges (register_relationships DiGraph_init ?all)))"
    by blast
  from t have "map_of (g_edges (register_relationships DiGraph_init ?all))
       = map_of (g_edges DiGraph_init) ++ map_of (rev (map keyed ?all))" by blast
  then have m: "map_of (g_edges (register_relationships DiGraph_init ?all)) (''A'', ''B'')
       = Some (edge_data_of (module_edge ''A'' ''B''))"
    by (simp add: keyed_def DiGraph_init_def call_edge_def module_edge_def SatdRelationship_init_def)
  from twin_run data_run control_run a b c d dd m show ?thesis by simp
qed




section \<open>Reachability and scores\<close>

subsection \<open>Breadth-first search reaches exactly the reachable nodes\<close>

lemma set_neighbours: "set (neighbours G forward n) = {w. (n, w) \<in> dir_rel G forward}"
  by (simp add: neighbours_def dir_rel_def set_successors set_predecessors)

lemma bfs_reach:
  assumes "set queue \<subseteq> set visited" and "s \<in> set visited"
    and "\<forall>v \<in> set visited. (s, v) \<in> (dir_rel G forward)\<^sup>*"
    and "\<forall>v \<in> set visited - set queue. \<forall>w. (v, w) \<in> dir_rel G forward \<longrightarrow> w \<in> set visited"
  shows "set (bfs G forward visited queue) = {v. (s, v) \<in> (dir_rel G forward)\<^sup>*}"
  using assms
proof (induction G forward visited queue rule: bfs.induct)
  case (1 G forward visited)
  let ?R = "dir_rel G forward"
  have closed: "w \<in> set visited" if "v \<in> set visited" "(v, w) \<in> ?R" for v w
    using 1(4) that by auto
  have "v \<in> set visited" if "(s, v) \<in> ?R\<^sup>*" for v
    using that
  proof (induction rule: rtrancl_induct)
    case base
    then show ?case using 1(2) by simp
  next
    case (step y z)
    then show ?case using closed by blast
  qed
  then show ?case using 1(3) by auto
next
  case (2 G forward visited n queue)
  let ?R = "dir_rel G forward"
  define new where "new = filter (\<lambda>v. v \<notin> set visited) (remdups (neighbours G forward n))"
  have new: "set new = {w. (n, w) \<in> ?R} - set visited"
    by (auto simp: new_def set_neighbours)
  have n: "n \<in> set visited" using "2.prems"(1) by simp
  have a: "set (queue @ new) \<subseteq> set (visited @ new)" using "2.prems"(1) by auto
  have b: "s \<in> set (visited @ new)" using "2.prems"(2) by simp
  have c: "\<forall>v \<in> set (visited @ new). (s, v) \<in> ?R\<^sup>*"
  proof
    fix v assume "v \<in> set (visited @ new)"
    then consider "v \<in> set visited" | "(n, v) \<in> ?R" using new by auto
    then show "(s, v) \<in> ?R\<^sup>*"
    proof cases
      case 1
      then show ?thesis using "2.prems"(3) by simp
    next
      case 2
      moreover have "(s, n) \<in> ?R\<^sup>*" using "2.prems"(3) n by simp
      ultimately show ?thesis by (rule rtrancl_into_rtrancl [rotated])
    qed
  qed
  have d: "\<forall>v \<in> set (visited @ new) - set (queue @ new).
             \<forall>w. (v, w) \<in> ?R \<longrightarrow> w \<in> set (visited @ new)"
  proof (intro ballI allI impI)
    fix v w assume v: "v \<in> set (visited @ new) - set (queue @ new)" and e: "(v, w) \<in> ?R"
    then have vv: "v \<in> set visited" "v \<notin> set queue" by auto
    show "w \<in> set (visited @ new)"
    proof (cases "v = n")
      case True
      then show ?thesis using e new by auto
    next
      case False
      then have "v \<in> set visited - set (n # queue)" using vv by simp
      then have "w \<in> set visited" using "2.prems"(4) e by blast
      then show ?thesis by simp
    qed
  qed
  have "set (bfs G forward (visited @ new) (queue @ new)) = {v. (s, v) \<in> ?R\<^sup>*}"
    using "2.IH" [OF new_def a b c d] .
  then show ?case by (simp add: new_def Let_def)
qed

lemma bfs_from_source:
  "set (bfs G forward [s] [s]) = {v. (s, v) \<in> (dir_rel G forward)\<^sup>*}"
  by (rule bfs_reach) simp_all

lemma reach_minus_source: "{v. (s, v) \<in> R\<^sup>*} - {s} = {v. v \<noteq> s \<and> (s, v) \<in> R\<^sup>+}"
  by (auto simp: rtrancl_eq_or_trancl)

lemma descendants_eq:
  "descendants G s =
     (if s \<in> set (g_nodes G) then Inr {v. v \<noteq> s \<and> (s, v) \<in> (edge_set G)\<^sup>+}
      else Inl NetworkXError)"
  by (simp add: descendants_def bfs_from_source reach_minus_source dir_rel_def del: bfs.simps)

lemma ancestors_eq:
  "ancestors G s =
     (if s \<in> set (g_nodes G) then Inr {v. v \<noteq> s \<and> (v, s) \<in> (edge_set G)\<^sup>+}
      else Inl NetworkXError)"
  by (simp add: ancestors_def bfs_from_source reach_minus_source dir_rel_def trancl_converse
      del: bfs.simps)

lemma outgoing_eq:
  "calculate_outgoing_influence i G =
     (if i \<in> set (g_nodes G) then card {v. v \<noteq> i \<and> (i, v) \<in> (edge_set G)\<^sup>+} else 0)"
  by (simp add: calculate_outgoing_influence_def descendants_eq)

lemma incoming_eq:
  "calculate_incoming_dependency i G =
     (if i \<in> set (g_nodes G) then card {v. v \<noteq> i \<and> (v, i) \<in> (edge_set G)\<^sup>+} else 0)"
  by (simp add: calculate_incoming_dependency_def ancestors_eq)

subsection \<open>Scoring over the store\<close>

lemma score_debt_fields:
  "id_td (score_debt w dic ml G d) = id_td d"
  "file_td (score_debt w dic ml G d) = file_td d"
  "line (score_debt w dic ml G d) = line d"
  "content (score_debt w dic ml G d) = content d"
  "description (score_debt w dic ml G d) = description d"
  "debt_type (score_debt w dic ml G d) = debt_type d"
  "created_commit (score_debt w dic ml G d) = created_commit d"
  "created_date (score_debt w dic ml G d) = created_date d"
  by (simp_all add: score_debt_def Let_def)

lemma severity_cong:
  "debt_type d' = debt_type d \<Longrightarrow> content d' = content d
   \<Longrightarrow> calculate_intrinsic_severity d' = calculate_intrinsic_severity d"
  by (simp add: calculate_intrinsic_severity_def)

lemma score_debt_idem:
  "score_debt w dic ml G (score_debt w dic ml G d) = score_debt w dic ml G d"
proof -
  have "calculate_intrinsic_severity (score_debt w dic ml G d) = calculate_intrinsic_severity d"
    by (rule severity_cong) (simp_all add: score_debt_fields)
  then show ?thesis
    unfolding score_debt_def [of w dic ml G "score_debt w dic ml G d"]
    by (simp add: score_debt_fields) (simp add: score_debt_def Let_def)
qed

lemma foldl_update_obj:
  assumes "\<And>x. f (f x) = f x"
  shows "objs (foldl (update_obj f) h rs) r = (if r \<in> set rs then f (objs h r) else objs h r)
         \<and> lists (foldl (update_obj f) h rs) = lists h"
proof (induction rs arbitrary: h)
  case Nil
  then show ?case by simp
next
  case (Cons a rs)
  have o: "objs (update_obj f h a) = (objs h) (a := f (objs h a))"
    and l: "lists (update_obj f h a) = lists h"
    by (simp_all add: update_obj_def)
  show ?case using Cons.IH [of "update_obj f h a"] assms by (simp add: o l)
qed

lemma scores_objs:
  "objs (snd (calculate_sir_scores w h l rs cs G)) r =
     (if r \<in> set (lists h l)
      then score_debt w (debt_in_chains_of cs) (max_or 1 (map length_ch cs)) G (objs h r)
      else objs h r)"
  unfolding calculate_sir_scores_def Let_def snd_conv
  using foldl_update_obj [of "score_debt w (debt_in_chains_of cs) (max_or 1 (map length_ch cs)) G"]
    score_debt_idem by blast

lemma scores_lists: "lists (snd (calculate_sir_scores w h l rs cs G)) = lists h"
  unfolding calculate_sir_scores_def Let_def snd_conv
  using foldl_update_obj [of "score_debt w (debt_in_chains_of cs) (max_or 1 (map length_ch cs)) G"]
    score_debt_idem by blast

text \<open>
  Claim C1. For every instance of the scored list the composite score is
  \<open>w_sev * severity + w_out * outgoing - w_in * incoming + w_chain * chain_length_factor\<close>,
  the default weights being 0.4, 0.3, 0.1 and 0.4; the outgoing influence is the number of
  nodes other than the instance that are reachable from it along the edges of the graph,
  the incoming dependency the number of nodes other than it from which it is reachable,
  and both are 0 for an instance that is not a node of the graph.
\<close>

theorem sir_score_formula:
  assumes "r \<in> set (lists h l)"
  shows "sir_score (objs (snd (calculate_sir_scores w h l rs cs G)) r)
         = w_severity w * calculate_intrinsic_severity (objs h r)
           + w_outgoing w * real (if id_td (objs h r) \<in> set (g_nodes G)
                then card {v. v \<noteq> id_td (objs h r) \<and> (id_td (objs h r), v) \<in> (edge_set G)\<^sup>+}
                else 0)
           - w_incoming w * real (if id_td (objs h r) \<in> set (g_nodes G)
                then card {v. v \<noteq> id_td (objs h r) \<and> (v, id_td (objs h r)) \<in> (edge_set G)\<^sup>+}
                else 0)
           + w_chain_length w * chainLengthFactor
               (sir_components (objs (snd (calculate_sir_scores w h l rs cs G)) r))
       \<and> chainLengthFactor (sir_components (objs (snd (calculate_sir_scores w h l rs cs G)) r))
         = calculate_chain_length_factor (id_td (objs h r))
             (dict_get (debt_in_chains_of cs) (id_td (objs h r))) (max_or 1 (map length_ch cs))
       \<and> SirCalculator_init None
         = \<lparr> w_severity = 4 / 10, w_outgoing = 3 / 10, w_incoming = 1 / 10, w_chain_length = 4 / 10 \<rparr>"
  using assms
  by (simp add: scores_objs score_debt_def Let_def outgoing_eq incoming_eq
      SirCalculator_init_def default_weights_def)

text \<open>
  Claim C10. \<^verbatim>\<open>calculate_sir_scores\<close> returns the list object it was given, leaves every
  list as it was, and changes an instance only by assigning \<open>sir_score\<close> and
  \<open>sir_components\<close>: the id, the file, the line, the content and the debt type of every
  instance are the same after the call, and an instance that is not in the list is not
  touched at all.
\<close>

theorem scoring_frame:
  "fst (calculate_sir_scores w h l rs cs G) = l
   \<and> lists (snd (calculate_sir_scores w h l rs cs G)) = lists h
   \<and> id_td (objs (snd (calculate_sir_scores w h l rs cs G)) r) = id_td (objs h r)
   \<and> file_td (objs (snd (calculate_sir_scores w h l rs cs G)) r) = file_td (objs h r)
   \<and> line (objs (snd (calculate_sir_scores w h l rs cs G)) r) = line (objs h r)
   \<and> content (objs (snd (calculate_sir_scores w h l rs cs G)) r) = content (objs h r)
   \<and> debt_type (objs (snd (calculate_sir_scores w h l rs cs G)) r) = debt_type (objs h r)
   \<and> objs (snd (calculate_sir_scores w h l rs cs G)) r
       = (objs h r) \<lparr> sir_score := sir_score (objs (snd (calculate_sir_scores w h l rs cs G)) r),
                      sir_components :=
                        sir_components (objs (snd (calculate_sir_scores w h l rs cs G)) r) \<rparr>
   \<and> (r \<notin> set (lists h l) \<longrightarrow> objs (snd (calculate_sir_scores w h l rs cs G)) r = objs h r)"
proof -
  have "fst (calculate_sir_scores w h l rs cs G) = l"
    by (simp add: calculate_sir_scores_def Let_def)
  moreover have "objs (snd (calculate_sir_scores w h l rs cs G)) r
       = (objs h r) \<lparr> sir_score := sir_score (objs (snd (calculate_sir_scores w h l rs cs G)) r),
                      sir_components :=
                        sir_components (objs (snd (calculate_sir_scores w h l rs cs G)) r) \<rparr>"
    by (simp add: scores_objs) (simp add: score_debt_def Let_def)
  ultimately show ?thesis
    by (simp add: scores_lists) (simp add: scores_objs score_debt_fields)
qed

subsection \<open>Chain length factor and chain metrics\<close>





lemma max_or_Max: "xs \<noteq> [] \<Longrightarrow> max_or d xs = Max (set xs)"
proof (cases xs)
  case Nil
  assume "xs \<noteq> []"
  with Nil show ?thesis by simp
next
  case (Cons a list)
  show ?thesis using Max.set_eq_fold [of a list] by (simp add: Cons max_or_def)
qed


lemma max_or_ge: "x \<in> set xs \<Longrightarrow> x \<le> max_or d xs"
  by (cases "xs = []") (simp_all add: max_or_Max)








section \<open>Bounds\<close>


subsection \<open>A concrete scoring run\<close>






lemma fork_analyzer_graph:
  "fork_graph_of_analyzer =
     \<lparr> g_nodes = [''b'', ''c'', ''a''],
       g_edges = [((''b'', ''c''), edge_data_of (call_edge ''b'' ''c'')),
                  ((''a'', ''c''), edge_data_of (call_edge ''a'' ''c''))] \<rparr>"
  by (simp add: fork_graph_of_analyzer_def register_relationships_def add_relationship_def
      add_edge_def add_node_def DiGraph_init_def fork_rels_def call_edge_def
      SatdRelationship_init_def Let_def)

lemma fork_severity: "calculate_intrinsic_severity (example_debt ''b'' ''src/b.py'') = 5"
  by (simp add: calculate_intrinsic_severity_def example_debt_def TechnicalDebt_init_def
      type_severity_get_def any_word_in_def lower_def lower_char_def Let_def)

lemma fork_outgoing: "calculate_outgoing_influence ''b'' fork_graph_of_analyzer = 1"
  by (simp add: calculate_outgoing_influence_def descendants_def fork_analyzer_graph
      neighbours_def successors_def)

lemma fork_incoming: "calculate_incoming_dependency ''b'' fork_graph_of_analyzer = 0"
  by (simp add: calculate_incoming_dependency_def ancestors_def fork_analyzer_graph
      neighbours_def predecessors_def)

lemma fork_factor:
  "calculate_chain_length_factor ''b''
     (dict_get (debt_in_chains_of (snd (find_chains fork_rels fork_debts))) ''b'')
     (max_or 1 (map length_ch (snd (find_chains fork_rels fork_debts)))) = 1"
  by (simp add: fork_chains calculate_chain_length_factor_def debt_in_chains_of_def
      dict_get_def dict_append_def max_or_def Chain_init_def)

theorem sir_score_formula_witness:
  "0 \<in> set (lists fork_store 3)
   \<and> sir_score (objs (snd (calculate_sir_scores (SirCalculator_init None) fork_store 3
         (fst (find_chains fork_rels fork_debts)) (snd (find_chains fork_rels fork_debts))
         fork_graph_of_analyzer)) 0) = 27 / 10"
proof -
  have m: "0 \<in> set (lists fork_store 3)" by (simp add: fork_store_def)
  have o: "objs fork_store 0 = example_debt ''b'' ''src/b.py''" by (simp add: fork_store_def)
  have i: "id_td (example_debt ''b'' ''src/b.py'') = ''b''"
    by (simp add: example_debt_def TechnicalDebt_init_def)
  note t = sir_score_formula [OF m, of "SirCalculator_init None"
      "fst (find_chains fork_rels fork_debts)" "snd (find_chains fork_rels fork_debts)"
      fork_graph_of_analyzer]
  let ?W = "SirCalculator_init None"
  let ?h = "snd (calculate_sir_scores ?W fork_store 3
         (fst (find_chains fork_rels fork_debts)) (snd (find_chains fork_rels fork_debts))
         fork_graph_of_analyzer)"
  from t have w: "?W = \<lparr> w_severity = 4 / 10, w_outgoing = 3 / 10, w_incoming = 1 / 10,
      w_chain_length = 4 / 10 \<rparr>" by blast
  have ws: "w_severity ?W = 4 / 10" "w_outgoing ?W = 3 / 10" "w_incoming ?W = 1 / 10"
    "w_chain_length ?W = 4 / 10"
    by (simp_all add: w)
  from t have f: "chainLengthFactor (sir_components (objs ?h 0)) = 1"
    unfolding o i fork_factor by blast
  from t have "sir_score (objs ?h 0)
        = w_severity ?W * 5 + w_outgoing ?W * real (1::nat) - w_incoming ?W * real (0::nat)
          + w_chain_length ?W * chainLengthFactor (sir_components (objs ?h 0))"
    unfolding o i outgoing_eq [symmetric] incoming_eq [symmetric]
      fork_severity fork_outgoing fork_incoming
    by blast
  then have "sir_score (objs ?h 0) = 27 / 10"
    unfolding f ws by simp
  then show ?thesis using m by blast
qed

theorem scoring_frame_witness:
  "5 \<notin> set (lists fork_store 3)
   \<and> objs (snd (calculate_sir_scores default_weights fork_store 3 fork_rels
              (snd (find_chains fork_rels fork_debts)) fork_graph_of_analyzer)) 5
     = example_debt ''c'' ''lib/c.py''
   \<and> content (objs (snd (calculate_sir_scores default_weights fork_store 3 fork_rels
              (snd (find_chains fork_rels fork_debts)) fork_graph_of_analyzer)) 0)
     = ''TODO: fix''
   \<and> fst (calculate_sir_scores default_weights fork_store 3 fork_rels
              (snd (find_chains fork_rels fork_debts)) fork_graph_of_analyzer) = 3"
proof -
  have m: "5 \<notin> set (lists fork_store 3)" by (simp add: fork_store_def)
  have o: "objs fork_store 5 = example_debt ''c'' ''lib/c.py''"
    "content (objs fork_store 0) = ''TODO: fix''"
    by (simp_all add: fork_store_def example_debt_def TechnicalDebt_init_def)
  show ?thesis
    using m o
      scoring_frame [of default_weights fork_store 3 fork_rels
        "snd (find_chains fork_rels fork_debts)" fork_graph_of_analyzer 5]
      scoring_frame [of default_weights fork_store 3 fork_rels
        "snd (find_chains fork_rels fork_debts)" fork_graph_of_analyzer 0]
    by simp
qed



end
